theory Spec2Isabelle
  imports Main "HOL-Library.Multiset" "HOL-Library.Sublist" "HOL-Library.AList"
begin

section \<open>Data model of huffnpuff.py\<close>

text \<open>
  Exceptions of the Python program are values. \<open>IndexError\<close> is what \<open>list.pop\<close> raises
  on an empty list (inside \<open>heapq.heappop\<close>), \<open>KeyError\<close> what a dictionary subscript
  raises on a missing key, \<open>ValueError\<close> what \<open>int(s, 2)\<close> and \<open>bytearray.append\<close>
  raise, \<open>FileNotFoundError\<close> what \<open>compress\<close> raises itself. \<open>EmptyInput\<close> is the error
  kind the specification names for an empty input; no function of the source raises it,
  and no function below returns it.
\<close>

datatype error = IndexError | KeyError | ValueError | FileNotFoundError | EmptyInput

text \<open>
  \<open>class Node\<close>: \<open>char\<close> (\<open>None\<close> for a merged node), \<open>freq\<close>, \<open>left\<close>, \<open>right\<close>
  (both \<open>Optional[Node]\<close>). The symbols of the input are of an arbitrary type \<open>'a\<close>
  (Python: one-character strings); frequencies are Python integers.
\<close>

datatype 'a node = Node (char: "'a option") (freq: int) (left: "'a node option") (right: "'a node option")

text \<open>\<open>Node.__lt__\<close>: nodes are compared by frequency only.\<close>

definition node_lt :: "'a node \<Rightarrow> 'a node \<Rightarrow> bool" where
  "node_lt self other = (freq self < freq other)"

text \<open>
  \<open>class HuffmanEncoder\<close>: the four attributes set by \<open>__init__\<close>. The two
  dictionaries \<open>codes\<close> and \<open>reverse_codes\<close> are only ever subscripted, so they are maps.
\<close>

record 'a encoder =
  heap :: "'a node list"
  codes :: "'a \<rightharpoonup> string"
  reverse_codes :: "string \<rightharpoonup> 'a"
  padding :: int

definition HuffmanEncoder_init :: "'a encoder" where
  "HuffmanEncoder_init = \<lparr>heap = [], codes = Map.empty, reverse_codes = Map.empty, padding = 0\<rparr>"

section \<open>The heapq functions the encoder calls\<close>

text \<open>
  \<open>heapq._siftdown(heap, startpos, pos)\<close>: \<open>newitem = heap[pos]\<close>, then the loop
  \<^verbatim>\<open>
    while pos > startpos:
        parentpos = (pos - 1) >> 1
        parent = heap[parentpos]
        if newitem < parent:
            heap[pos] = parent
            pos = parentpos
            continue
        break
    heap[pos] = newitem
  \<close>
  Every read is in range when \<open>pos < len(heap)\<close>: \<open>parentpos < pos\<close>.
\<close>

function siftdown_loop :: "'a node list \<Rightarrow> nat \<Rightarrow> 'a node \<Rightarrow> nat \<Rightarrow> 'a node list" where
  "siftdown_loop hp startpos newitem pos =
     (if pos > startpos then
        (let parentpos = (pos - 1) div 2;
             parent = hp ! parentpos
         in if node_lt newitem parent
            then siftdown_loop (hp[pos := parent]) startpos newitem parentpos
            else hp[pos := newitem])
      else hp[pos := newitem])"
  by pat_completeness auto

termination
  by (relation "measure (\<lambda>(hp, startpos, newitem, pos). pos)") auto

declare siftdown_loop.simps [simp del]

definition siftdown :: "'a node list \<Rightarrow> nat \<Rightarrow> nat \<Rightarrow> 'a node list" where
  "siftdown hp startpos pos = (let newitem = hp ! pos in siftdown_loop hp startpos newitem pos)"

text \<open>
  \<open>heapq._siftup(heap, pos)\<close>: the loop that moves the smaller child up until a leaf
  is reached,
  \<^verbatim>\<open>
    while childpos < endpos:
        rightpos = childpos + 1
        if rightpos < endpos and not heap[childpos] < heap[rightpos]:
            childpos = rightpos
        heap[pos] = heap[childpos]
        pos = childpos
        childpos = 2*pos + 1
  \<close>
  returns the list and the final \<open>pos\<close>. Both reads are guarded by \<open>< endpos\<close>.
\<close>

function siftup_loop :: "'a node list \<Rightarrow> nat \<Rightarrow> nat \<Rightarrow> nat \<Rightarrow> 'a node list \<times> nat" where
  "siftup_loop hp endpos pos childpos =
     (if childpos < endpos then
        (let rightpos = childpos + 1;
             childpos1 = (if rightpos < endpos \<and> \<not> node_lt (hp ! childpos) (hp ! rightpos)
                          then rightpos else childpos)
         in siftup_loop (hp[pos := hp ! childpos1]) endpos childpos1 (2 * childpos1 + 1))
      else (hp, pos))"
  by pat_completeness auto

termination
  by (relation "measure (\<lambda>(hp, endpos, pos, childpos). endpos - childpos)") auto

declare siftup_loop.simps [simp del]

definition siftup :: "'a node list \<Rightarrow> nat \<Rightarrow> 'a node list" where
  "siftup hp pos =
     (let endpos = length hp;
          startpos = pos;
          newitem = hp ! pos
      in case siftup_loop hp endpos pos (2 * pos + 1) of
           (hp1, pos1) \<Rightarrow> siftdown (hp1[pos1 := newitem]) startpos pos1)"

text \<open>\<open>heapq.heappush(heap, item)\<close>: append, then \<open>_siftdown(heap, 0, len(heap)-1)\<close>.\<close>

definition heappush :: "'a node list \<Rightarrow> 'a node \<Rightarrow> 'a node list" where
  "heappush hp item = (let hp1 = hp @ [item] in siftdown hp1 0 (length hp1 - 1))"

text \<open>
  \<open>heapq.heappop(heap)\<close>: \<open>heap.pop()\<close> raises IndexError on the empty list and leaves
  it empty; otherwise the last element replaces the root and is sifted.
\<close>

definition heappop :: "'a node list \<Rightarrow> error + ('a node \<times> 'a node list)" where
  "heappop hp =
     (if hp = [] then Inl IndexError
      else let lastelt = last hp;
               hp1 = butlast hp
           in if hp1 \<noteq> []
              then let returnitem = hp1 ! 0;
                       hp2 = hp1[0 := lastelt]
                   in Inr (returnitem, siftup hp2 0)
              else Inr (lastelt, hp1))"

section \<open>The methods of HuffmanEncoder\<close>

text \<open>
  \<open>make_frequency_dict\<close>. A Python dictionary keeps its keys in insertion order, and
  \<open>make_heap\<close> iterates over it, so the frequency dictionary is an association list:
  \<open>AList.update\<close> overwrites the value of a present key in place and appends an absent key
  at the end, as \<open>d[k] = v\<close> does. The method reads and writes no attribute of \<open>self\<close>.
\<close>

definition dict_get :: "('k \<times> 'v) list \<Rightarrow> 'k \<Rightarrow> 'v \<Rightarrow> 'v" where
  "dict_get d k dflt = (case map_of d k of None \<Rightarrow> dflt | Some v \<Rightarrow> v)"

definition make_frequency_dict :: "'a encoder \<Rightarrow> 'a list \<Rightarrow> ('a \<times> int) list \<times> 'a encoder" where
  "make_frequency_dict self text =
     (fold (\<lambda>ch freq_dict. AList.update ch (dict_get freq_dict ch 0 + 1) freq_dict) text [],
      self)"

text \<open>\<open>make_heap\<close>: one leaf per item of the dictionary, pushed in the dictionary's order.\<close>

definition make_heap :: "'a encoder \<Rightarrow> ('a \<times> int) list \<Rightarrow> 'a encoder" where
  "make_heap self freq_dict =
     fold (\<lambda>(ch, fr) s. s\<lparr>heap := heappush (heap s) (Node (Some ch) fr None None)\<rparr>)
       freq_dict self"

text \<open>
  \<open>merge_nodes\<close>: the loop reads and writes \<open>self.heap\<close> only, so it is a function of the
  heap. An exception of \<open>heappop\<close> leaves the heap as it is at that moment.
\<close>

lemma length_siftdown_loop [simp]: "length (siftdown_loop hp startpos newitem pos) = length hp"
  by (induction hp startpos newitem pos rule: siftdown_loop.induct)
     (subst siftdown_loop.simps, simp add: Let_def)

lemma length_siftdown [simp]: "length (siftdown hp startpos pos) = length hp"
  by (simp add: siftdown_def Let_def)

lemma length_siftup_loop [simp]: "length (fst (siftup_loop hp endpos pos childpos)) = length hp"
  by (induction hp endpos pos childpos rule: siftup_loop.induct)
     (subst siftup_loop.simps, simp add: Let_def)

lemma siftup_loop_length:
  "siftup_loop hp endpos pos childpos = (hp1, pos1) \<Longrightarrow> length hp1 = length hp"
  using length_siftup_loop [of hp endpos pos childpos] by simp

lemma length_siftup [simp]: "length (siftup hp pos) = length hp"
  by (auto simp: siftup_def Let_def dest: siftup_loop_length split: prod.split)

lemma length_heappush [simp]: "length (heappush hp item) = Suc (length hp)"
  by (simp add: heappush_def)

lemma heappop_length: "heappop hp = Inr (x, hp') \<Longrightarrow> Suc (length hp') = length hp"
  by (cases hp rule: rev_cases) (auto simp: heappop_def Let_def split: if_splits)

lemma heappop_Inl: "heappop hp = Inl e \<longleftrightarrow> hp = [] \<and> e = IndexError"
  by (auto simp: heappop_def Let_def)

function merge_nodes_loop :: "'a node list \<Rightarrow> (error + unit) \<times> 'a node list" where
  "merge_nodes_loop hp =
     (if length hp > 1 then
        (case heappop hp of
           Inl e \<Rightarrow> (Inl e, hp)
         | Inr (node1, hp1) \<Rightarrow>
             (case heappop hp1 of
                Inl e \<Rightarrow> (Inl e, hp1)
              | Inr (node2, hp2) \<Rightarrow>
                  (let merged = Node None (freq node1 + freq node2) (Some node1) (Some node2)
                   in merge_nodes_loop (heappush hp2 merged))))
      else (Inr (), hp))"
  by pat_completeness auto

termination
proof (relation "measure length")
  show "wf (measure length)" by simp
next
  fix hp :: "'a node list" and x2 x y x2a xa ya xb
  assume "heappop hp = Inr x2" "(x, y) = x2" "heappop y = Inr x2a" "(xa, ya) = x2a"
  then have "Suc (length y) = length hp" "Suc (length ya) = length y"
    using heappop_length [of hp x y] heappop_length [of y xa ya] by simp_all
  then show "(heappush ya xb, hp) \<in> measure length" by simp
qed

declare merge_nodes_loop.simps [simp del]

definition merge_nodes :: "'a encoder \<Rightarrow> (error + unit) \<times> 'a encoder" where
  "merge_nodes self = (case merge_nodes_loop (heap self) of (r, hp) \<Rightarrow> (r, self\<lparr>heap := hp\<rparr>))"

text \<open>
  \<open>make_codes_helper\<close>: the recursion over the tree; a node with a character is a leaf
  for it (the children of such a node are not visited).
\<close>

fun make_codes_helper :: "'a encoder \<Rightarrow> 'a node option \<Rightarrow> string \<Rightarrow> 'a encoder" where
  "make_codes_helper self None current_code = self"
| "make_codes_helper self (Some (Node c f l r)) current_code =
     (case c of
        Some ch \<Rightarrow> self\<lparr>codes := (codes self)(ch \<mapsto> current_code),
                        reverse_codes := (reverse_codes self)(current_code \<mapsto> ch)\<rparr>
      | None \<Rightarrow> make_codes_helper (make_codes_helper self l (current_code @ ''0''))
                  r (current_code @ ''1''))"

text \<open>\<open>make_codes\<close>: pops the root; the IndexError of an empty heap propagates.\<close>

definition make_codes :: "'a encoder \<Rightarrow> (error + unit) \<times> 'a encoder" where
  "make_codes self =
     (case heappop (heap self) of
        Inl e \<Rightarrow> (Inl e, self)
      | Inr (root, hp) \<Rightarrow> (Inr (), make_codes_helper (self\<lparr>heap := hp\<rparr>) (Some root) ''''))"

text \<open>\<open>get_encoded_text\<close>: \<open>self.codes[char]\<close> raises KeyError for a missing character.\<close>

fun get_encoded_text_loop :: "('a \<rightharpoonup> string) \<Rightarrow> 'a list \<Rightarrow> string \<Rightarrow> error + string" where
  "get_encoded_text_loop cs [] encoded_text = Inr encoded_text"
| "get_encoded_text_loop cs (ch # text) encoded_text =
     (case cs ch of
        None \<Rightarrow> Inl KeyError
      | Some code \<Rightarrow> get_encoded_text_loop cs text (encoded_text @ code))"

definition get_encoded_text :: "'a encoder \<Rightarrow> 'a list \<Rightarrow> (error + string) \<times> 'a encoder" where
  "get_encoded_text self text = (get_encoded_text_loop (codes self) text '''', self)"

text \<open>\<open>pad_encoded_text\<close>: stores the padding in \<open>self.padding\<close> and returns both.\<close>

definition pad_encoded_text :: "'a encoder \<Rightarrow> string \<Rightarrow> (string \<times> int) \<times> 'a encoder" where
  "pad_encoded_text self encoded_text =
     (let padding = 8 - int (length encoded_text mod 8);
          encoded_text1 = encoded_text @ replicate (nat padding) (CHR ''0'')
      in ((encoded_text1, padding), self\<lparr>padding := padding\<rparr>))"

text \<open>
  \<open>int(byte, 2)\<close> on the slices \<open>compress\<close> passes: the value of a non-empty string of
  \<open>'0'\<close> and \<open>'1'\<close> characters, most significant bit first; ValueError on the empty string
  and on any other character.
\<close>

fun int_base2_loop :: "string \<Rightarrow> nat \<Rightarrow> error + nat" where
  "int_base2_loop [] acc = Inr acc"
| "int_base2_loop (c # cs) acc =
     (if c = CHR ''0'' then int_base2_loop cs (2 * acc)
      else if c = CHR ''1'' then int_base2_loop cs (2 * acc + 1)
      else Inl ValueError)"

definition int_base2 :: "string \<Rightarrow> error + nat" where
  "int_base2 s = (if s = [] then Inl ValueError else int_base2_loop s 0)"

text \<open>
  The packing loop of \<open>compress\<close>:
  \<^verbatim>\<open>
    for i in range(0, len(padded_text), 8):
        byte = padded_text[i:i + 8]
        final_bytes.append(int(byte, 2))
  \<close>
  \<open>bytearray.append\<close> raises ValueError for a value outside \<open>range(256)\<close>.
\<close>

function final_bytes_loop :: "string \<Rightarrow> nat \<Rightarrow> nat list \<Rightarrow> error + nat list" where
  "final_bytes_loop padded_text i final_bytes =
     (if i < length padded_text then
        (case int_base2 (take 8 (drop i padded_text)) of
           Inl e \<Rightarrow> Inl e
         | Inr b \<Rightarrow>
             if b < 256 then final_bytes_loop padded_text (i + 8) (final_bytes @ [b])
             else Inl ValueError)
      else Inr final_bytes)"
  by pat_completeness auto

termination
  by (relation "measure (\<lambda>(padded_text, i, final_bytes). length padded_text - i)") auto

declare final_bytes_loop.simps [simp del]

text \<open>
  The first four calls of \<open>compress\<close> (also the calls of \<open>test_encoding_process\<close>):
  \<^verbatim>\<open>
    freq_dict = self.make_frequency_dict(text)
    self.make_heap(freq_dict)
    self.merge_nodes()
    self.make_codes()
  \<close>
  An exception leaves the encoder as it is at that moment.
\<close>

definition build_code_table :: "'a encoder \<Rightarrow> 'a list \<Rightarrow> (error + unit) \<times> 'a encoder" where
  "build_code_table self text =
     (case make_frequency_dict self text of
        (freq_dict, s1) \<Rightarrow>
          (case merge_nodes (make_heap s1 freq_dict) of
             (Inl e, s3) \<Rightarrow> (Inl e, s3)
           | (Inr u, s3) \<Rightarrow> make_codes s3))"

text \<open>
  \<open>compress\<close>, from the text read from the input file to the bytes written to the output
  file: the padding byte \<open>bytes([padding])\<close> (ValueError outside \<open>range(256)\<close>) followed by
  the packed bytes.
\<close>

definition compress_text :: "'a encoder \<Rightarrow> 'a list \<Rightarrow> (error + nat list) \<times> 'a encoder" where
  "compress_text self text =
     (case build_code_table self text of
        (Inl e, s4) \<Rightarrow> (Inl e, s4)
      | (Inr u, s4) \<Rightarrow>
          (case get_encoded_text s4 text of
             (Inl e, s5) \<Rightarrow> (Inl e, s5)
           | (Inr encoded_text, s5) \<Rightarrow>
               (case pad_encoded_text s5 encoded_text of
                  ((padded_text, pad), s6) \<Rightarrow>
                    (case final_bytes_loop padded_text 0 [] of
                       Inl e \<Rightarrow> (Inl e, s6)
                     | Inr final_bytes \<Rightarrow>
                         if 0 \<le> pad \<and> pad < 256
                         then (Inr (nat pad # final_bytes), s6)
                         else (Inl ValueError, s6)))))"

text \<open>
  \<open>compress\<close>: \<open>files\<close> maps the path of every existing text file to its contents; the
  result is the path of the output file and the bytes written to it.
\<close>

definition compress ::
  "'a encoder \<Rightarrow> (string \<rightharpoonup> 'a list) \<Rightarrow> string \<Rightarrow> (error + string \<times> nat list) \<times> 'a encoder" where
  "compress self files input_file =
     (case files input_file of
        None \<Rightarrow> (Inl FileNotFoundError, self)
      | Some text \<Rightarrow>
          (case compress_text self text of
             (Inl e, s) \<Rightarrow> (Inl e, s)
           | (Inr written, s) \<Rightarrow> (Inr (input_file @ ''.bin'', written), s)))"

section \<open>Notions used in the statements\<close>

text \<open>
  The invariant of \<open>heapq\<close>, read with \<open>Node.__lt__\<close>: no element is smaller than its
  parent, the parent of index \<open>i\<close> being index \<open>(i - 1) div 2\<close>.
\<close>

definition heap_ordered :: "'a node list \<Rightarrow> bool" where
  "heap_ordered hp =
     (\<forall>i. 0 < i \<and> i < length hp \<longrightarrow> freq (hp ! ((i - 1) div 2)) \<le> freq (hp ! i))"

text \<open>
  The loop invariants of the two sift loops. In \<open>siftdown_inv\<close> the slot \<open>pos\<close> is free
  for \<open>newitem\<close>: the order holds for every index but \<open>pos\<close>, and the children of \<open>pos\<close>
  are not smaller than \<open>newitem\<close> nor than the parent of \<open>pos\<close>. In \<open>siftup_inv\<close> the
  order holds between all pairs that do not involve \<open>pos\<close>, and the children of \<open>pos\<close> are
  not smaller than its parent.
\<close>

definition siftdown_inv :: "'a node list \<Rightarrow> 'a node \<Rightarrow> nat \<Rightarrow> bool" where
  "siftdown_inv hp newitem pos =
     (pos < length hp
      \<and> (\<forall>i. 0 < i \<and> i < length hp \<and> i \<noteq> pos \<longrightarrow>
             freq (hp ! ((i - 1) div 2)) \<le> freq (hp ! i))
      \<and> (\<forall>i. 0 < i \<and> i < length hp \<and> (i - 1) div 2 = pos \<longrightarrow>
             freq newitem \<le> freq (hp ! i)
             \<and> (0 < pos \<longrightarrow> freq (hp ! ((pos - 1) div 2)) \<le> freq (hp ! i))))"

definition siftup_inv :: "'a node list \<Rightarrow> nat \<Rightarrow> bool" where
  "siftup_inv hp pos =
     (pos < length hp
      \<and> (\<forall>i. 0 < i \<and> i < length hp \<and> i \<noteq> pos \<and> (i - 1) div 2 \<noteq> pos \<longrightarrow>
             freq (hp ! ((i - 1) div 2)) \<le> freq (hp ! i))
      \<and> (\<forall>i. 0 < i \<and> i < length hp \<and> (i - 1) div 2 = pos \<and> 0 < pos \<longrightarrow>
             freq (hp ! ((pos - 1) div 2)) \<le> freq (hp ! i)))"

text \<open>
  \<open>leaf_codes\<close> lists the assignments \<open>self.codes[node.char] = current_code\<close> that
  \<open>make_codes_helper\<close> makes, in the order it makes them; \<open>leaf_chars\<close> lists their
  characters.
\<close>

fun leaf_codes :: "'a node option \<Rightarrow> string \<Rightarrow> ('a \<times> string) list" where
  "leaf_codes None current_code = []"
| "leaf_codes (Some (Node c f l r)) current_code =
     (case c of
        Some ch \<Rightarrow> [(ch, current_code)]
      | None \<Rightarrow> leaf_codes l (current_code @ ''0'') @ leaf_codes r (current_code @ ''1''))"

fun leaf_chars :: "'a node option \<Rightarrow> 'a list" where
  "leaf_chars None = []"
| "leaf_chars (Some (Node c f l r)) =
     (case c of Some ch \<Rightarrow> [ch] | None \<Rightarrow> leaf_chars l @ leaf_chars r)"

text \<open>
  \<open>strictly_binary\<close>: a node with a character has no child; a node without one has two
  children, and its frequency is the sum of theirs.
\<close>

fun strictly_binary :: "'a node \<Rightarrow> bool" where
  "strictly_binary (Node c f l r) =
     (case c of
        Some ch \<Rightarrow> l = None \<and> r = None
      | None \<Rightarrow>
          (case l of
             None \<Rightarrow> False
           | Some n1 \<Rightarrow>
               (case r of
                  None \<Rightarrow> False
                | Some n2 \<Rightarrow> f = freq n1 + freq n2 \<and> strictly_binary n1 \<and> strictly_binary n2)))"

text \<open>
  \<open>prefix_free\<close>: no code of the table is a prefix of the code of another symbol.
\<close>

definition prefix_free :: "('a \<rightharpoonup> string) \<Rightarrow> bool" where
  "prefix_free cs =
     (\<forall>a b ca cb. a \<noteq> b \<and> cs a = Some ca \<and> cs b = Some cb \<longrightarrow>
        \<not> prefix ca cb \<and> \<not> prefix cb ca)"

text \<open>
  \<open>leaf_heap\<close> is the loop of \<open>make_heap\<close> on the heap alone. \<open>forest_inv\<close> is what the
  merge loop keeps of the nodes in the heap: every tree is strictly binary, the frequencies
  add up to the same total, and the characters at the leaves are the same.
\<close>

definition leaf_heap :: "('a \<times> int) list \<Rightarrow> 'a node list \<Rightarrow> 'a node list" where
  "leaf_heap freq_dict hp =
     fold (\<lambda>(ch, fr) hp. heappush hp (Node (Some ch) fr None None)) freq_dict hp"

definition forest_inv :: "int \<Rightarrow> 'a multiset \<Rightarrow> 'a node multiset \<Rightarrow> bool" where
  "forest_inv tot chars M =
     ((\<forall>n \<in># M. strictly_binary n)
      \<and> sum_mset (image_mset freq M) = tot
      \<and> sum_mset (image_mset (\<lambda>n. mset (leaf_chars (Some n))) M) = chars)"

text \<open>
  For a text: \<open>huffman_root\<close> names the root that \<open>merge_nodes\<close> leaves in the heap of a
  new encoder, \<open>code_list\<close> the assignments \<open>make_codes\<close> makes for it, \<open>encoded_bits\<close> the
  concatenation of the assigned codes in input order, \<open>pad_of\<close> the padding
  \<open>pad_encoded_text\<close> computes for it, and \<open>packed\<close> the result of the packing loop with
  the padding byte in front.
\<close>

definition huffman_root :: "'a list \<Rightarrow> 'a node" where
  "huffman_root text =
     hd (snd (merge_nodes_loop (leaf_heap (fst (make_frequency_dict HuffmanEncoder_init text)) [])))"

definition code_list :: "'a list \<Rightarrow> ('a \<times> string) list" where
  "code_list text = leaf_codes (Some (huffman_root text)) []"

definition encoded_bits :: "'a list \<Rightarrow> string" where
  "encoded_bits text = concat (map (\<lambda>ch. the (map_of (rev (code_list text)) ch)) text)"

definition pad_of :: "'a list \<Rightarrow> int" where
  "pad_of text = 8 - int (length (encoded_bits text) mod 8)"

definition packed :: "'a list \<Rightarrow> error + nat list" where
  "packed text =
     (case final_bytes_loop (encoded_bits text @ replicate (nat (pad_of text)) (CHR ''0'')) 0 [] of
        Inl e \<Rightarrow> Inl e
      | Inr final_bytes \<Rightarrow> Inr (nat (pad_of text) # final_bytes))"

section \<open>Frequency counting\<close>

lemma sum_update_incr:
  fixes d :: "('a \<times> int) list"
  shows "sum_list (map snd (AList.update k (dict_get d k 0 + 1) d)) = sum_list (map snd d) + 1"
  by (induction d) (auto simp: dict_get_def)

lemma dict_get_update:
  "dict_get (AList.update k v d) c dflt = (if c = k then v else dict_get d c dflt)"
  by (simp add: dict_get_def update_conv')

lemma fold_count_sum:
  "sum_list (map snd (fold (\<lambda>ch d. AList.update ch (dict_get d ch 0 + 1) d) text d))
     = sum_list (map snd d) + int (length text)"
  by (induction "text" arbitrary: d) (simp_all add: sum_update_incr)

lemma fold_count_distinct:
  "distinct (map fst d) \<Longrightarrow>
   distinct (map fst (fold (\<lambda>ch d. AList.update ch (dict_get d ch 0 + 1) d) text d))"
  by (induction "text" arbitrary: d) (simp_all add: distinct_update)

lemma fold_count_map_of:
  "map_of (fold (\<lambda>ch d. AList.update ch (dict_get d ch 0 + 1) d) text d) c
     = (if c \<in> set text then Some (dict_get d c 0 + int (count_list text c)) else map_of d c)"
proof (induction "text" arbitrary: d)
  case Nil
  then show ?case by simp
next
  case (Cons x xs)
  show ?case
    by (auto simp: Cons.IH dict_get_update update_conv')
qed

text \<open>
  C2. For every input text, \<open>make_frequency_dict\<close> returns a table whose counts sum to
  the length of the input; every symbol of the input maps to its number of occurrences,
  every other symbol is absent, so every stored count is at least 1; each symbol is stored
  once; the empty input gives the empty table; the encoder is returned unchanged.
\<close>

theorem make_frequency_dict_spec:
  "(case make_frequency_dict self text of
      (freq_dict, s) \<Rightarrow>
        sum_list (map snd freq_dict) = int (length text)
        \<and> distinct (map fst freq_dict)
        \<and> (\<forall>c. map_of freq_dict c
                 = (if c \<in> set text then Some (int (count_list text c)) else None))
        \<and> (\<forall>(c, n) \<in> set freq_dict. c \<in> set text \<and> n = int (count_list text c) \<and> 1 \<le> n)
        \<and> (text = [] \<longrightarrow> freq_dict = [])
        \<and> s = self)"
proof -
  let ?fd = "fold (\<lambda>ch d. AList.update ch (dict_get d ch 0 + 1) d) text []"
  have s: "sum_list (map snd ?fd) = int (length text)"
    using fold_count_sum [of "text" "[]"] by simp
  have d: "distinct (map fst ?fd)"
    using fold_count_distinct [of "[]" "text"] by simp
  have m: "map_of ?fd c = (if c \<in> set text then Some (int (count_list text c)) else None)" for c
    using fold_count_map_of [of "text" "[]" c] by (simp add: dict_get_def)
  have e: "c \<in> set text \<and> n = int (count_list text c) \<and> 1 \<le> n" if "(c, n) \<in> set ?fd" for c n
  proof -
    have "map_of ?fd c = Some n" using d that by (rule map_of_is_SomeI)
    then have "c \<in> set text" "n = int (count_list text c)"
      by (auto simp: m split: if_splits)
    moreover have "count_list text c \<noteq> 0" using \<open>c \<in> set text\<close> by (simp add: count_list_0_iff)
    ultimately show ?thesis by simp
  qed
  show ?thesis
    using s d m e by (auto simp: make_frequency_dict_def)
qed

theorem make_frequency_dict_spec_witness:
  "make_frequency_dict (HuffmanEncoder_init :: char encoder) ''AAB''
     = ([(CHR ''A'', 2), (CHR ''B'', 1)], HuffmanEncoder_init)
   \<and> sum_list (map snd (fst (make_frequency_dict (HuffmanEncoder_init :: char encoder) ''AAB''))) = 3"
  using make_frequency_dict_spec [of "''AAB''" "HuffmanEncoder_init :: char encoder"]
  by (simp add: make_frequency_dict_def dict_get_def)

section \<open>Padding\<close>

text \<open>
  C4. For every bit string, \<open>pad_encoded_text\<close> computes \<open>padding = 8 - (len mod 8)\<close>,
  which lies between 1 and 8 and is 8 exactly when the length is a multiple of 8; it
  appends exactly that many \<open>'0'\<close> characters, so the result has a length that is a multiple
  of 8 and has the input as a prefix. The padding is also stored in the encoder, whose other
  attributes are unchanged.
\<close>

theorem pad_encoded_text_spec:
  "(case pad_encoded_text self bits of
      ((padded, p), s) \<Rightarrow>
        p = 8 - int (length bits mod 8) \<and> 1 \<le> p \<and> p \<le> 8 \<and> p \<noteq> 0
        \<and> ((p = 8) = (length bits mod 8 = 0))
        \<and> padded = bits @ replicate (nat p) (CHR ''0'')
        \<and> int (length padded) = int (length bits) + p
        \<and> length padded mod 8 = 0
        \<and> prefix bits padded
        \<and> s = self\<lparr>padding := p\<rparr>)"
proof -
  define m where "m = length bits mod 8"
  have m8: "m < 8" by (simp add: m_def)
  have "(length bits + (8 - m)) mod 8 = (length bits mod 8 + (8 - m)) mod 8"
    by (simp add: mod_add_left_eq)
  also have "\<dots> = 0" using m8 by (simp add: m_def [symmetric])
  finally have len: "(length bits + (8 - m)) mod 8 = 0" .
  have n: "nat (8 - int m) = 8 - m" using m8 by simp
  show ?thesis
    using m8 len by (simp add: pad_encoded_text_def Let_def m_def [symmetric] n)
qed

section \<open>Encoding a text with a code table\<close>

lemma get_encoded_text_loop_eq:
  "get_encoded_text_loop cs text acc
     = (if \<forall>ch \<in> set text. cs ch \<noteq> None
        then Inr (acc @ concat (map (\<lambda>ch. the (cs ch)) text))
        else Inl KeyError)"
  by (induction "text" arbitrary: acc) (auto split: option.splits)

text \<open>
  C10. If some character of the text has no entry in the code table, \<open>get_encoded_text\<close>
  fails with KeyError; if every character has one, it returns the concatenation of the
  characters' codes in input order. In both cases the encoder is unchanged.
\<close>

theorem get_encoded_text_spec:
  "((\<exists>ch \<in> set text. codes self ch = None) \<longrightarrow>
      get_encoded_text self text = (Inl KeyError, self))
   \<and> ((\<forall>ch \<in> set text. codes self ch \<noteq> None) \<longrightarrow>
      get_encoded_text self text
        = (Inr (concat (map (\<lambda>ch. the (codes self ch)) text)), self))"
  by (auto simp: get_encoded_text_def get_encoded_text_loop_eq)

theorem get_encoded_text_spec_witness:
  "get_encoded_text (HuffmanEncoder_init\<lparr>codes := [CHR ''A'' \<mapsto> ''0'']\<rparr>) ''AB''
     = (Inl KeyError, HuffmanEncoder_init\<lparr>codes := [CHR ''A'' \<mapsto> ''0'']\<rparr>)
   \<and> get_encoded_text
         (HuffmanEncoder_init\<lparr>codes := [CHR ''A'' \<mapsto> ''0'', CHR ''B'' \<mapsto> ''11'']\<rparr>) ''ABA''
     = (Inr ''0110'',
        HuffmanEncoder_init\<lparr>codes := [CHR ''A'' \<mapsto> ''0'', CHR ''B'' \<mapsto> ''11'']\<rparr>)"
  using
    get_encoded_text_spec
      [of "''AB''" "HuffmanEncoder_init\<lparr>codes := [CHR ''A'' \<mapsto> ''0'']\<rparr>"]
    get_encoded_text_spec
      [of "''ABA''"
          "HuffmanEncoder_init\<lparr>codes := [CHR ''A'' \<mapsto> ''0'', CHR ''B'' \<mapsto> ''11'']\<rparr>"]
  by (simp add: HuffmanEncoder_init_def)

section \<open>The heap operations keep the elements\<close>

lemma mset_two_updates:
  assumes "i < length xs" "j < length xs" "i \<noteq> j"
  shows "mset (xs[i := xs ! j, j := v]) = mset (xs[i := v])"
  using assms by (simp add: mset_update nth_mem)

lemma mset_siftdown_loop:
  "pos < length hp \<Longrightarrow>
   mset (siftdown_loop hp startpos newitem pos) = mset (hp[pos := newitem])"
proof (induction hp startpos newitem pos rule: siftdown_loop.induct)
  case (1 hp startpos newitem pos)
  show ?case
  proof (cases "startpos < pos \<and> node_lt newitem (hp ! ((pos - 1) div 2))")
    case True
    then have pp: "(pos - 1) div 2 < pos" by auto
    with "1.prems" have ppl: "(pos - 1) div 2 < length hp" by simp
    have "siftdown_loop hp startpos newitem pos
            = siftdown_loop (hp[pos := hp ! ((pos - 1) div 2)]) startpos newitem ((pos - 1) div 2)"
      using True by (subst siftdown_loop.simps) (simp add: Let_def)
    also have "mset \<dots> = mset (hp[pos := hp ! ((pos - 1) div 2), (pos - 1) div 2 := newitem])"
      using True ppl by (intro "1.IH") simp_all
    also have "\<dots> = mset (hp[pos := newitem])"
      using "1.prems" ppl pp by (intro mset_two_updates) simp_all
    finally show ?thesis .
  next
    case False
    then show ?thesis
      by (subst siftdown_loop.simps) (auto simp: Let_def)
  qed
qed

lemma mset_siftdown: "pos < length hp \<Longrightarrow> mset (siftdown hp startpos pos) = mset hp"
  by (simp add: siftdown_def Let_def mset_siftdown_loop)

lemma mset_heappush: "mset (heappush hp item) = add_mset item (mset hp)"
  by (simp add: heappush_def Let_def mset_siftdown)

lemma siftup_loop_step:
  "childpos < endpos \<Longrightarrow>
   siftup_loop hp endpos pos childpos
     = (let c = (if childpos + 1 < endpos \<and> \<not> node_lt (hp ! childpos) (hp ! (childpos + 1))
                 then childpos + 1 else childpos)
        in siftup_loop (hp[pos := hp ! c]) endpos c (2 * c + 1))"
  by (subst siftup_loop.simps) (simp add: Let_def)

lemma siftup_loop_mset:
  "siftup_loop hp endpos pos childpos = (hp1, pos1) \<Longrightarrow>
   pos < childpos \<Longrightarrow> pos < length hp \<Longrightarrow> endpos \<le> length hp \<Longrightarrow>
   pos1 < length hp \<and> mset (hp1[pos1 := x]) = mset (hp[pos := x])"
proof (induction "endpos - childpos" arbitrary: hp pos childpos rule: less_induct)
  case less
  show ?case
  proof (cases "childpos < endpos")
    case False
    with less.prems show ?thesis
      by (subst (asm) siftup_loop.simps) auto
  next
    case True
    define c where "c = (if childpos + 1 < endpos \<and> \<not> node_lt (hp ! childpos) (hp ! (childpos + 1))
                          then childpos + 1 else childpos)"
    have c: "pos < c" "c < length hp" "c < endpos" "childpos \<le> c"
      using True less.prems by (auto simp: c_def)
    have rec: "siftup_loop (hp[pos := hp ! c]) endpos c (2 * c + 1) = (hp1, pos1)"
      using less.prems(1) by (simp only: siftup_loop_step [OF True] Let_def c_def)
    have "pos1 < length (hp[pos := hp ! c])
          \<and> mset (hp1[pos1 := x]) = mset ((hp[pos := hp ! c])[c := x])"
      using c less.prems by (intro less.hyps [OF _ rec]) simp_all
    moreover have "mset (hp[pos := hp ! c, c := x]) = mset (hp[pos := x])"
      using c less.prems by (intro mset_two_updates) simp_all
    ultimately show ?thesis by simp
  qed
qed

lemma mset_siftup:
  assumes "pos < length hp"
  shows "mset (siftup hp pos) = mset hp"
proof -
  obtain hp1 pos1 where e: "siftup_loop hp (length hp) pos (2 * pos + 1) = (hp1, pos1)"
    by (cases "siftup_loop hp (length hp) pos (2 * pos + 1)")
  have l: "length hp1 = length hp" using e by (rule siftup_loop_length)
  from siftup_loop_mset [OF e, of "hp ! pos"] assms
  have p: "pos1 < length hp" and m: "mset (hp1[pos1 := hp ! pos]) = mset hp"
    by simp_all
  have "siftup hp pos = siftdown (hp1[pos1 := hp ! pos]) pos pos1"
    using e by (simp add: siftup_def Let_def)
  then show ?thesis using p l m by (simp add: mset_siftdown)
qed

lemma mset_heappop:
  assumes "heappop hp = Inr (x, hp')"
  shows "mset hp = add_mset x (mset hp')"
proof (cases hp rule: rev_cases)
  case Nil
  with assms show ?thesis by (simp add: heappop_def)
next
  case (snoc hp1 lastelt)
  show ?thesis
  proof (cases "hp1 = []")
    case True
    with assms snoc show ?thesis by (simp add: heappop_def)
  next
    case False
    with assms snoc have x: "x = hp1 ! 0" and h: "hp' = siftup (hp1[0 := lastelt]) 0"
      by (simp_all add: heappop_def Let_def)
    have "mset hp' = mset (hp1[0 := lastelt])"
      using False unfolding h by (intro mset_siftup) simp
    also have "\<dots> = add_mset lastelt (mset hp1 - {#hp1 ! 0#})"
      using False by (simp add: mset_update)
    finally show ?thesis using False snoc x by (simp add: nth_mem)
  qed
qed

section \<open>The heap operations keep the heap order\<close>

lemma parent_less: "0 < (i::nat) \<Longrightarrow> (i - 1) div 2 < i"
  by arith

lemma siftdown_inv_exit:
  assumes inv: "siftdown_inv hp newitem pos"
    and stop: "pos = 0 \<or> freq (hp ! ((pos - 1) div 2)) \<le> freq newitem"
  shows "heap_ordered (hp[pos := newitem])"
  unfolding heap_ordered_def
proof (intro allI impI)
  fix i assume i: "0 < i \<and> i < length (hp[pos := newitem])"
  then have il: "0 < i" "i < length hp" by simp_all
  from inv have pl: "pos < length hp" by (simp add: siftdown_inv_def)
  have par: "(i - 1) div 2 < i" using il by simp
  show "freq (hp[pos := newitem] ! ((i - 1) div 2)) \<le> freq (hp[pos := newitem] ! i)"
  proof (cases "i = pos")
    case True
    then have "(i - 1) div 2 \<noteq> pos" using par by simp
    then show ?thesis using True stop il pl by simp
  next
    case False
    show ?thesis
    proof (cases "(i - 1) div 2 = pos")
      case True
      then have "freq newitem \<le> freq (hp ! i)"
        using inv il by (simp add: siftdown_inv_def)
      then show ?thesis using True False pl by simp
    next
      case F2: False
      have "freq (hp ! ((i - 1) div 2)) \<le> freq (hp ! i)"
        using inv il False by (simp add: siftdown_inv_def)
      then show ?thesis using False F2 by simp
    qed
  qed
qed

lemma siftdown_inv_step:
  assumes inv: "siftdown_inv hp newitem pos"
    and pos: "0 < pos"
    and lt: "freq newitem < freq (hp ! ((pos - 1) div 2))"
  shows "siftdown_inv (hp[pos := hp ! ((pos - 1) div 2)]) newitem ((pos - 1) div 2)"
proof -
  let ?pp = "(pos - 1) div 2"
  have pp: "?pp < pos" using pos by simp
  from inv have pl: "pos < length hp" by (simp add: siftdown_inv_def)
  have k1: "freq (hp ! ((i - 1) div 2)) \<le> freq (hp ! i)"
    if "0 < i" "i < length hp" "i \<noteq> pos" for i
    using inv that by (simp add: siftdown_inv_def)
  have k2: "freq (hp ! ?pp) \<le> freq (hp ! i)"
    if "0 < i" "i < length hp" "(i - 1) div 2 = pos" for i
    using inv that pos by (simp add: siftdown_inv_def)
  let ?h = "hp[pos := hp ! ?pp]"
  have a: "freq (?h ! ((i - 1) div 2)) \<le> freq (?h ! i)"
    if i: "0 < i" "i < length hp" "i \<noteq> ?pp" for i
  proof (cases "i = pos")
    case True
    then show ?thesis using pp pl by simp
  next
    case False
    show ?thesis
    proof (cases "(i - 1) div 2 = pos")
      case True
      then show ?thesis using k2 [OF i(1,2)] False pl by simp
    next
      case F2: False
      then show ?thesis using k1 [OF i(1,2) False] False by simp
    qed
  qed
  have b: "freq newitem \<le> freq (?h ! i)
           \<and> (0 < ?pp \<longrightarrow> freq (?h ! ((?pp - 1) div 2)) \<le> freq (?h ! i))"
    if i: "0 < i" "i < length hp" "(i - 1) div 2 = ?pp" for i
  proof -
    have gp: "(?pp - 1) div 2 \<noteq> pos" using pp by arith
    have ppk: "0 < ?pp \<Longrightarrow> freq (hp ! ((?pp - 1) div 2)) \<le> freq (hp ! ?pp)"
      using k1 [of ?pp] pp pl by simp
    show ?thesis
    proof (cases "i = pos")
      case True
      then show ?thesis using lt pl pp gp ppk by simp
    next
      case False
      have "freq (hp ! ?pp) \<le> freq (hp ! i)" using k1 [OF i(1,2) False] i(3) by simp
      then show ?thesis using lt False pp gp ppk by auto
    qed
  qed
  have ppl: "?pp < length hp" using pp pl by simp
  show ?thesis
    unfolding siftdown_inv_def length_list_update using a b ppl by blast
qed

lemma siftdown_loop_ordered:
  "siftdown_inv hp newitem pos \<Longrightarrow> heap_ordered (siftdown_loop hp 0 newitem pos)"
proof (induction pos arbitrary: hp rule: less_induct)
  case (less pos)
  show ?case
  proof (cases "0 < pos \<and> node_lt newitem (hp ! ((pos - 1) div 2))")
    case True
    then have lt: "freq newitem < freq (hp ! ((pos - 1) div 2))" by (simp add: node_lt_def)
    have "siftdown_loop hp 0 newitem pos
            = siftdown_loop (hp[pos := hp ! ((pos - 1) div 2)]) 0 newitem ((pos - 1) div 2)"
      using True by (subst siftdown_loop.simps) (simp add: Let_def)
    moreover have "heap_ordered \<dots>"
      using True by (intro less.IH siftdown_inv_step [OF less.prems _ lt] parent_less) simp_all
    ultimately show ?thesis by simp
  next
    case False
    then have "siftdown_loop hp 0 newitem pos = hp[pos := newitem]"
      by (subst siftdown_loop.simps) (auto simp: Let_def)
    moreover have "pos = 0 \<or> freq (hp ! ((pos - 1) div 2)) \<le> freq newitem"
      using False by (auto simp: node_lt_def)
    ultimately show ?thesis using siftdown_inv_exit [OF less.prems] by simp
  qed
qed

lemma heap_ordered_heappush:
  assumes "heap_ordered hp"
  shows "heap_ordered (heappush hp item)"
proof -
  have "siftdown_inv (hp @ [item]) item (length hp)"
    unfolding siftdown_inv_def
  proof (intro conjI allI impI)
    show "length hp < length (hp @ [item])" by simp
  next
    fix i assume "0 < i \<and> i < length (hp @ [item]) \<and> i \<noteq> length hp"
    then have i: "0 < i" "i < length hp" by simp_all
    then have "(i - 1) div 2 < length hp" by simp
    then show "freq ((hp @ [item]) ! ((i - 1) div 2)) \<le> freq ((hp @ [item]) ! i)"
      using assms i by (simp add: nth_append heap_ordered_def)
  next
    fix i assume a: "0 < i \<and> i < length (hp @ [item]) \<and> (i - 1) div 2 = length hp"
    then have "0 < i" "i < Suc (length hp)" "(i - 1) div 2 = length hp" by simp_all
    then have False by arith
    then show "freq item \<le> freq ((hp @ [item]) ! i)" ..
  next
    fix i assume a: "0 < i \<and> i < length (hp @ [item]) \<and> (i - 1) div 2 = length hp"
    then have "0 < i" "i < Suc (length hp)" "(i - 1) div 2 = length hp" by simp_all
    then have False by arith
    then show "freq ((hp @ [item]) ! ((length hp - 1) div 2)) \<le> freq ((hp @ [item]) ! i)" ..
  qed
  then show ?thesis
    by (simp add: heappush_def siftdown_def Let_def siftdown_loop_ordered)
qed

lemma siftup_inv_exit:
  assumes inv: "siftup_inv hp pos" and leaf: "length hp \<le> 2 * pos + 1"
  shows "siftdown_inv (hp[pos := x]) x pos"
proof -
  from inv have pl: "pos < length hp" by (simp add: siftup_inv_def)
  have nochild: "(i - 1) div 2 \<noteq> pos" if "0 < i" "i < length hp" for i
    using that leaf by arith
  have a: "freq (hp[pos := x] ! ((i - 1) div 2)) \<le> freq (hp[pos := x] ! i)"
    if i: "0 < i" "i < length hp" "i \<noteq> pos" for i
  proof -
    have "freq (hp ! ((i - 1) div 2)) \<le> freq (hp ! i)"
      using inv i nochild [OF i(1,2)] by (simp add: siftup_inv_def)
    then show ?thesis using i nochild [OF i(1,2)] by simp
  qed
  show ?thesis
    unfolding siftdown_inv_def length_list_update using a nochild pl by blast
qed

lemma siftup_inv_step:
  assumes inv: "siftup_inv hp pos"
    and cp: "2 * pos + 1 < length hp"
    and c: "c = (if 2 * pos + 1 + 1 < length hp
                    \<and> \<not> node_lt (hp ! (2 * pos + 1)) (hp ! (2 * pos + 1 + 1))
                 then 2 * pos + 1 + 1 else 2 * pos + 1)"
  shows "siftup_inv (hp[pos := hp ! c]) c"
proof -
  from inv have pl: "pos < length hp" by (simp add: siftup_inv_def)
  have cl: "c < length hp" "pos < c" "(c - 1) div 2 = pos" "0 < c"
    using cp by (auto simp: c)
  have l1: "freq (hp ! ((i - 1) div 2)) \<le> freq (hp ! i)"
    if "0 < i" "i < length hp" "i \<noteq> pos" "(i - 1) div 2 \<noteq> pos" for i
    using inv that by (simp add: siftup_inv_def)
  have l2: "freq (hp ! ((pos - 1) div 2)) \<le> freq (hp ! i)"
    if "0 < i" "i < length hp" "(i - 1) div 2 = pos" "0 < pos" for i
    using inv that by (simp add: siftup_inv_def)
  have sibling: "freq (hp ! c) \<le> freq (hp ! i)"
    if i: "0 < i" "i < length hp" "(i - 1) div 2 = pos" "i \<noteq> c" for i
  proof -
    have "i = 2 * pos + 1 \<or> i = 2 * pos + 1 + 1" using i by arith
    then show ?thesis using i cp by (auto simp: c node_lt_def split: if_splits)
  qed
  let ?h = "hp[pos := hp ! c]"
  have a: "freq (?h ! ((i - 1) div 2)) \<le> freq (?h ! i)"
    if i: "0 < i" "i < length hp" "i \<noteq> c" "(i - 1) div 2 \<noteq> c" for i
  proof (cases "i = pos")
    case True
    have "(pos - 1) div 2 \<noteq> pos" using i True by arith
    then show ?thesis using True l2 [OF cl(4,1,3)] i pl by simp
  next
    case False
    show ?thesis
    proof (cases "(i - 1) div 2 = pos")
      case True
      then show ?thesis using sibling [OF i(1,2) True i(3)] False pl by simp
    next
      case F2: False
      then show ?thesis using l1 [OF i(1,2) False F2] False by simp
    qed
  qed
  have b: "freq (?h ! ((c - 1) div 2)) \<le> freq (?h ! i)"
    if i: "0 < i" "i < length hp" "(i - 1) div 2 = c" for i
  proof -
    have ne: "i \<noteq> pos" "(i - 1) div 2 \<noteq> pos" using i cl by arith+
    have "freq (hp ! c) \<le> freq (hp ! i)" using l1 [OF i(1,2) ne] i(3) by simp
    then show ?thesis using ne cl pl by simp
  qed
  show ?thesis
    unfolding siftup_inv_def length_list_update using a b cl(1) by blast
qed

lemma siftup_loop_inv:
  "siftup_loop hp (length hp) pos (2 * pos + 1) = (hp1, pos1) \<Longrightarrow> siftup_inv hp pos \<Longrightarrow>
   siftdown_inv (hp1[pos1 := x]) x pos1"
proof (induction "length hp - pos" arbitrary: hp pos rule: less_induct)
  case less
  from less.prems(2) have pl: "pos < length hp" by (simp add: siftup_inv_def)
  show ?case
  proof (cases "2 * pos + 1 < length hp")
    case False
    then have "siftup_loop hp (length hp) pos (2 * pos + 1) = (hp, pos)"
      by (subst siftup_loop.simps) simp
    with less.prems have "hp1 = hp" "pos1 = pos" by simp_all
    then show ?thesis using siftup_inv_exit [OF less.prems(2)] False by simp
  next
    case True
    define c where "c = (if 2 * pos + 1 + 1 < length hp
                            \<and> \<not> node_lt (hp ! (2 * pos + 1)) (hp ! (2 * pos + 1 + 1))
                         then 2 * pos + 1 + 1 else 2 * pos + 1)"
    have cl: "c < length hp" "pos < c" using True by (auto simp: c_def)
    have rec: "siftup_loop (hp[pos := hp ! c]) (length (hp[pos := hp ! c])) c (2 * c + 1)
                 = (hp1, pos1)"
      using less.prems(1) by (simp only: siftup_loop_step [OF True] Let_def c_def length_list_update)
    have inv: "siftup_inv (hp[pos := hp ! c]) c"
      using less.prems(2) True c_def by (rule siftup_inv_step)
    show ?thesis
      using cl pl by (intro less.hyps [OF _ rec inv]) simp
  qed
qed

lemma heap_ordered_siftup:
  assumes "siftup_inv hp pos" "pos = 0"
  shows "heap_ordered (siftup hp pos)"
proof -
  obtain hp1 pos1 where e: "siftup_loop hp (length hp) pos (2 * pos + 1) = (hp1, pos1)"
    by (cases "siftup_loop hp (length hp) pos (2 * pos + 1)")
  have inv: "siftdown_inv (hp1[pos1 := hp ! pos]) (hp ! pos) pos1"
    using e assms(1) by (rule siftup_loop_inv)
  then have "pos1 < length hp1" by (simp add: siftdown_inv_def)
  then have "siftup hp pos = siftdown_loop (hp1[pos1 := hp ! pos]) 0 (hp ! pos) pos1"
    using e assms(2) by (simp add: siftup_def siftdown_def Let_def)
  then show ?thesis using siftdown_loop_ordered [OF inv] by simp
qed

lemma heap_ordered_butlast: "heap_ordered (hp @ [x]) \<Longrightarrow> heap_ordered hp"
  unfolding heap_ordered_def
proof (intro allI impI)
  fix i assume h: "\<forall>i. 0 < i \<and> i < length (hp @ [x]) \<longrightarrow>
      freq ((hp @ [x]) ! ((i - 1) div 2)) \<le> freq ((hp @ [x]) ! i)" and i: "0 < i \<and> i < length hp"
  then have "(i - 1) div 2 < length hp" by arith
  moreover have "freq ((hp @ [x]) ! ((i - 1) div 2)) \<le> freq ((hp @ [x]) ! i)"
    using h i by simp
  ultimately show "freq (hp ! ((i - 1) div 2)) \<le> freq (hp ! i)"
    using i by (simp add: nth_append)
qed

lemma heap_ordered_heappop:
  assumes "heappop hp = Inr (x, hp')" "heap_ordered hp"
  shows "heap_ordered hp'"
proof (cases hp rule: rev_cases)
  case Nil
  with assms show ?thesis by (simp add: heappop_def)
next
  case (snoc hp1 lastelt)
  show ?thesis
  proof (cases "hp1 = []")
    case True
    with assms snoc show ?thesis by (simp add: heappop_def heap_ordered_def)
  next
    case False
    with assms snoc have h: "hp' = siftup (hp1[0 := lastelt]) 0"
      by (simp add: heappop_def Let_def)
    have o1: "heap_ordered hp1" using assms(2) snoc heap_ordered_butlast by blast
    have "siftup_inv (hp1[0 := lastelt]) 0"
      unfolding siftup_inv_def length_list_update
    proof (intro conjI allI impI)
      show "0 < length hp1" using False by simp
    next
      fix i assume i: "0 < i \<and> i < length hp1 \<and> i \<noteq> 0 \<and> (i - 1) div 2 \<noteq> 0"
      then have "freq (hp1 ! ((i - 1) div 2)) \<le> freq (hp1 ! i)"
        using o1 by (simp add: heap_ordered_def)
      then show "freq (hp1[0 := lastelt] ! ((i - 1) div 2)) \<le> freq (hp1[0 := lastelt] ! i)"
        using i by simp
    next
      fix i assume "0 < i \<and> i < length hp1 \<and> (i - 1) div 2 = 0 \<and> (0::nat) < 0"
      then show "freq (hp1[0 := lastelt] ! ((0 - 1) div 2)) \<le> freq (hp1[0 := lastelt] ! i)"
        by simp
    qed
    then show ?thesis unfolding h by (rule heap_ordered_siftup) simp
  qed
qed

lemma heap_ordered_root_le:
  "heap_ordered hp \<Longrightarrow> i < length hp \<Longrightarrow> freq (hp ! 0) \<le> freq (hp ! i)"
proof (induction i rule: less_induct)
  case (less i)
  show ?case
  proof (cases "i = 0")
    case True
    then show ?thesis by simp
  next
    case False
    then have p: "(i - 1) div 2 < i" by arith
    have "freq (hp ! 0) \<le> freq (hp ! ((i - 1) div 2))"
      using less.prems p by (intro less.IH) simp_all
    also have "\<dots> \<le> freq (hp ! i)"
      using less.prems False by (simp add: heap_ordered_def)
    finally show ?thesis .
  qed
qed

lemma heappop_root: "heappop hp = Inr (x, hp') \<Longrightarrow> x = hp ! 0"
  by (cases hp rule: rev_cases) (auto simp: heappop_def Let_def nth_append split: if_splits)

lemma heappop_least:
  assumes "heappop hp = Inr (x, hp')" "heap_ordered hp" "y \<in> set hp"
  shows "freq x \<le> freq y"
proof -
  obtain i where "i < length hp" "y = hp ! i" using assms(3) by (auto simp: in_set_conv_nth)
  then show ?thesis using heap_ordered_root_le [OF assms(2)] heappop_root [OF assms(1)] by simp
qed

section \<open>Trees and code tables\<close>

lemma make_codes_helper_eq:
  "make_codes_helper self n c =
     self\<lparr>codes := codes self ++ map_of (rev (leaf_codes n c)),
          reverse_codes :=
            reverse_codes self ++ map_of (rev (map (\<lambda>(a, code). (code, a)) (leaf_codes n c)))\<rparr>"
proof (induction self n c rule: make_codes_helper.induct)
  case (1 self current_code)
  then show ?case by simp
next
  case (2 self c f l r current_code)
  show ?case
  proof (cases c)
    case None
    then show ?thesis using 2 by (simp add: rev_map)
  next
    case (Some ch)
    have lc: "leaf_codes (Some (Node c f l r)) current_code = [(ch, current_code)]"
      using Some by simp
    have a: "codes self ++ map_of (rev [(ch, current_code)]) = (codes self)(ch \<mapsto> current_code)"
      by (rule ext) (simp add: map_add_def)
    have b: "reverse_codes self ++ map_of (rev (map (\<lambda>(a, code). (code, a)) [(ch, current_code)]))
               = (reverse_codes self)(current_code \<mapsto> ch)"
      by (rule ext) (simp add: map_add_def)
    have "make_codes_helper self (Some (Node c f l r)) current_code
            = self\<lparr>codes := (codes self)(ch \<mapsto> current_code),
                    reverse_codes := (reverse_codes self)(current_code \<mapsto> ch)\<rparr>"
      using Some by simp
    then show ?thesis by (simp only: lc a b)
  qed
qed

lemma leaf_codes_fst: "map fst (leaf_codes n c) = leaf_chars n"
  by (induction n c rule: leaf_codes.induct) (auto split: option.splits)

lemma leaf_codes_prefix: "(a, ca) \<in> set (leaf_codes n c) \<Longrightarrow> prefix c ca"
proof (induction n c rule: leaf_codes.induct)
  case (1 current_code)
  then show ?case by simp
next
  case (2 c f l r current_code)
  then show ?case
    by (cases c) (auto dest: append_prefixD)
qed


lemma prefix_snoc_same:
  assumes "prefix (c @ [x]) s" "prefix (c @ [y]) s"
  shows "x = y"
proof -
  obtain u v where "s = c @ [x] @ u" "s = c @ [y] @ v"
    using assms by (auto simp: prefix_def)
  then show ?thesis by simp
qed

lemma leaf_codes_incomparable:
  "(a, ca) \<in> set (leaf_codes n c) \<Longrightarrow> (b, cb) \<in> set (leaf_codes n c) \<Longrightarrow> prefix ca cb \<Longrightarrow>
   a = b \<and> ca = cb"
proof (induction n c arbitrary: a ca b cb rule: leaf_codes.induct)
  case (1 current_code)
  then show ?case by simp
next
  case (2 c f l r current_code)
  show ?case
  proof (cases c)
    case (Some ch)
    with "2.prems" show ?thesis by simp
  next
    case None
    let ?L = "leaf_codes l (current_code @ ''0'')" and ?R = "leaf_codes r (current_code @ ''1'')"
    from "2.prems" None have m: "(a, ca) \<in> set ?L \<or> (a, ca) \<in> set ?R"
      "(b, cb) \<in> set ?L \<or> (b, cb) \<in> set ?R" by simp_all
    have cross: False
      if "(a1, c1) \<in> set ?L" "(a2, c2) \<in> set ?R" "prefix c1 c2 \<or> prefix c2 c1" for a1 c1 a2 c2
    proof -
      have p: "prefix (current_code @ ''0'') c1" "prefix (current_code @ ''1'') c2"
        using that leaf_codes_prefix by fast+
      from that(3) have "\<exists>s. prefix (current_code @ ''0'') s \<and> prefix (current_code @ ''1'') s"
        using p by (meson prefix_order.order_trans prefix_order.order_refl)
      then show False using prefix_snoc_same [of current_code "CHR ''0''" _ "CHR ''1''"] by auto
    qed
    from m show ?thesis
      using "2.IH"(1) [OF None, of a ca b cb] "2.IH"(2) [OF None, of a ca b cb] "2.prems"(3) cross
      by blast
  qed
qed

lemma prefix_free_leaf_codes: "prefix_free (map_of (rev (leaf_codes n c)))"
  unfolding prefix_free_def
proof (intro allI impI)
  fix a b ca cb
  assume h: "a \<noteq> b \<and> map_of (rev (leaf_codes n c)) a = Some ca
               \<and> map_of (rev (leaf_codes n c)) b = Some cb"
  then have "(a, ca) \<in> set (leaf_codes n c)" "(b, cb) \<in> set (leaf_codes n c)"
    by (auto dest: map_of_SomeD)
  then show "\<not> prefix ca cb \<and> \<not> prefix cb ca"
    using h leaf_codes_incomparable [of a ca n c b cb] leaf_codes_incomparable [of b cb n c a ca]
    by blast
qed

lemma merge_nodes_loop_rule:
  assumes "hp \<noteq> []" and "I (mset hp)"
    and step: "\<And>M n1 n2. I (add_mset n1 (add_mset n2 M)) \<Longrightarrow>
                 I (add_mset (Node None (freq n1 + freq n2) (Some n1) (Some n2)) M)"
  shows "\<exists>root. merge_nodes_loop hp = (Inr (), [root]) \<and> I {#root#}"
  using assms(1,2)
proof (induction "length hp" arbitrary: hp rule: less_induct)
  case less
  show ?case
  proof (cases "1 < length hp")
    case False
    with less.prems(1) obtain root where r: "hp = [root]"
      by (cases hp) auto
    have "merge_nodes_loop hp = (Inr (), hp)"
      using False by (subst merge_nodes_loop.simps) simp
    then show ?thesis using r less.prems(2) by simp
  next
    case True
    obtain n1 h1 where p1: "heappop hp = Inr (n1, h1)"
      using less.prems(1) by (cases "heappop hp") (auto simp: heappop_Inl)
    have l1: "Suc (length h1) = length hp" using p1 by (rule heappop_length)
    then have "h1 \<noteq> []" using True by auto
    then obtain n2 h2 where p2: "heappop h1 = Inr (n2, h2)"
      by (cases "heappop h1") (auto simp: heappop_Inl)
    have l2: "Suc (length h2) = length h1" using p2 by (rule heappop_length)
    let ?m = "Node None (freq n1 + freq n2) (Some n1) (Some n2)"
    have m: "mset hp = add_mset n1 (add_mset n2 (mset h2))"
      using mset_heappop [OF p1] mset_heappop [OF p2] by simp
    have unfold: "merge_nodes_loop hp = merge_nodes_loop (heappush h2 ?m)"
      using True p1 p2 by (subst merge_nodes_loop.simps) (simp add: Let_def)
    have "I (mset (heappush h2 ?m))"
      using step [of n1 n2 "mset h2"] less.prems(2) m by (simp add: mset_heappush)
    moreover have "length (heappush h2 ?m) < length hp" using l1 l2 by simp
    moreover have "heappush h2 ?m \<noteq> []"
      using length_heappush [of h2 ?m] by (metis length_0_conv nat.distinct(1))
    ultimately show ?thesis using less.hyps [of "heappush h2 ?m"] unfold by simp
  qed
qed

section \<open>Building the tree\<close>

lemma make_heap_eq: "make_heap self freq_dict = self\<lparr>heap := leaf_heap freq_dict (heap self)\<rparr>"
  unfolding make_heap_def leaf_heap_def
  by (induction freq_dict arbitrary: self) (auto simp: case_prod_beta)

lemma length_leaf_heap: "length (leaf_heap freq_dict hp) = length hp + length freq_dict"
  unfolding leaf_heap_def by (induction freq_dict arbitrary: hp) (auto simp: case_prod_beta)

lemma mset_leaf_heap:
  "mset (leaf_heap freq_dict hp)
     = mset hp + mset (map (\<lambda>(ch, fr). Node (Some ch) fr None None) freq_dict)"
  unfolding leaf_heap_def
  by (induction freq_dict arbitrary: hp) (auto simp: case_prod_beta mset_heappush)

lemma heap_ordered_leaf_heap: "heap_ordered hp \<Longrightarrow> heap_ordered (leaf_heap freq_dict hp)"
  unfolding leaf_heap_def
  by (induction freq_dict arbitrary: hp) (auto simp: case_prod_beta heap_ordered_heappush)

lemma heap_ordered_Nil: "heap_ordered []"
  by (simp add: heap_ordered_def)

lemma forest_inv_step:
  "forest_inv tot chars (add_mset n1 (add_mset n2 M)) \<Longrightarrow>
   forest_inv tot chars (add_mset (Node None (freq n1 + freq n2) (Some n1) (Some n2)) M)"
  by (cases n1; cases n2) (auto simp: forest_inv_def)

lemma forest_inv_leaves:
  "forest_inv (sum_list (map snd freq_dict)) (mset (map fst freq_dict))
     (mset (map (\<lambda>(ch, fr). Node (Some ch) fr None None) freq_dict))"
  by (induction freq_dict) (auto simp: forest_inv_def)

lemma merge_leaf_heap:
  assumes "freq_dict \<noteq> []"
  shows "\<exists>root. merge_nodes_loop (leaf_heap freq_dict []) = (Inr (), [root])
           \<and> strictly_binary root
           \<and> freq root = sum_list (map snd freq_dict)
           \<and> mset (leaf_chars (Some root)) = mset (map fst freq_dict)"
proof -
  have ne: "leaf_heap freq_dict [] \<noteq> []"
    using assms length_leaf_heap [of freq_dict "[]"] by auto
  have "forest_inv (sum_list (map snd freq_dict)) (mset (map fst freq_dict))
          (mset (leaf_heap freq_dict []))"
    using forest_inv_leaves [of freq_dict] by (simp add: mset_leaf_heap)
  from merge_nodes_loop_rule
    [of "leaf_heap freq_dict []"
        "forest_inv (sum_list (map snd freq_dict)) (mset (map fst freq_dict))",
     OF ne this forest_inv_step]
  show ?thesis by (auto simp: forest_inv_def)
qed

lemma merge_nodes_loop_step:
  assumes "heap_ordered hp" "1 < length hp"
  shows "\<exists>node1 hp1 node2 hp2.
           heappop hp = Inr (node1, hp1) \<and> heappop hp1 = Inr (node2, hp2)
           \<and> (\<forall>n \<in> set hp. freq node1 \<le> freq n) \<and> (\<forall>n \<in> set hp1. freq node2 \<le> freq n)
           \<and> mset hp = add_mset node1 (add_mset node2 (mset hp2))
           \<and> merge_nodes_loop hp
               = merge_nodes_loop
                   (heappush hp2 (Node None (freq node1 + freq node2) (Some node1) (Some node2)))
           \<and> mset (heappush hp2 (Node None (freq node1 + freq node2) (Some node1) (Some node2)))
               = add_mset (Node None (freq node1 + freq node2) (Some node1) (Some node2)) (mset hp2)
           \<and> heap_ordered
                (heappush hp2 (Node None (freq node1 + freq node2) (Some node1) (Some node2)))"
proof -
  have "hp \<noteq> []" using assms(2) by auto
  then obtain n1 h1 where p1: "heappop hp = Inr (n1, h1)"
    by (cases "heappop hp") (auto simp: heappop_Inl)
  have l1: "Suc (length h1) = length hp" using p1 by (rule heappop_length)
  then have "h1 \<noteq> []" using assms(2) by auto
  then obtain n2 h2 where p2: "heappop h1 = Inr (n2, h2)"
    by (cases "heappop h1") (auto simp: heappop_Inl)
  have o1: "heap_ordered h1" using p1 assms(1) by (rule heap_ordered_heappop)
  have o2: "heap_ordered h2" using p2 o1 by (rule heap_ordered_heappop)
  have m: "mset hp = add_mset n1 (add_mset n2 (mset h2))"
    using mset_heappop [OF p1] mset_heappop [OF p2] by simp
  have unfold: "merge_nodes_loop hp
      = merge_nodes_loop (heappush h2 (Node None (freq n1 + freq n2) (Some n1) (Some n2)))"
    using assms(2) p1 p2 by (subst merge_nodes_loop.simps) (simp add: Let_def)
  have least1: "\<forall>n \<in> set hp. freq n1 \<le> freq n"
    using heappop_least [OF p1 assms(1)] by blast
  have least2: "\<forall>n \<in> set h1. freq n2 \<le> freq n"
    using heappop_least [OF p2 o1] by blast
  show ?thesis
    using p1 p2 least1 least2 m unfold mset_heappush heap_ordered_heappush [OF o2] by blast
qed

lemma merge_nodes_heap_only:
  "merge_nodes_loop (heap s) = merge_nodes_loop hp' \<Longrightarrow> merge_nodes s = merge_nodes (s\<lparr>heap := hp'\<rparr>)"
  by (simp add: merge_nodes_def)

text \<open>
  C3. For every non-empty frequency table pushed by \<open>make_heap\<close> on an encoder with an
  empty heap: the heap is heap-ordered; \<open>merge_nodes\<close> returns normally with exactly one
  node in the heap, the root, in whose tree every node without a character has two children
  and the sum of their frequencies (and every node with a character has none); the root's
  frequency is the sum of the table's counts and its leaves are the table's symbols. Every
  iteration of the loop, on a heap-ordered heap of more than one node, pops a node of least
  frequency, then a node of least frequency among the rest, pushes the node without a
  character whose frequency is their sum and whose left and right children are the first
  and the second popped node, and goes on with that heap, which is heap-ordered again.
\<close>

theorem merge_nodes_spec:
  "heap (self :: 'a encoder) = [] \<and> freq_dict \<noteq> [] \<longrightarrow>
     heap_ordered (heap (make_heap self freq_dict))
     \<and> length (heap (make_heap self freq_dict)) = length freq_dict
     \<and> (\<exists>root. merge_nodes (make_heap self freq_dict) = (Inr (), self\<lparr>heap := [root]\<rparr>)
           \<and> strictly_binary root
           \<and> freq root = sum_list (map snd freq_dict)
           \<and> mset (leaf_chars (Some root)) = mset (map fst freq_dict))
     \<and> (\<forall>s :: 'a encoder. heap_ordered (heap s) \<and> 1 < length (heap s) \<longrightarrow>
           (\<exists>node1 hp1 node2 hp2.
              heappop (heap s) = Inr (node1, hp1) \<and> heappop hp1 = Inr (node2, hp2)
              \<and> (\<forall>n \<in> set (heap s). freq node1 \<le> freq n)
              \<and> (\<forall>n \<in> set hp1. freq node2 \<le> freq n)
              \<and> mset (heap s) = add_mset node1 (add_mset node2 (mset hp2))
              \<and> merge_nodes s
                  = merge_nodes
                      (s\<lparr>heap := heappush hp2
                         (Node None (freq node1 + freq node2) (Some node1) (Some node2))\<rparr>)
              \<and> mset (heappush hp2 (Node None (freq node1 + freq node2) (Some node1) (Some node2)))
                  = add_mset (Node None (freq node1 + freq node2) (Some node1) (Some node2))
                      (mset hp2)
              \<and> heap_ordered
                   (heappush hp2 (Node None (freq node1 + freq node2) (Some node1) (Some node2)))))"
proof (intro impI)
  assume a: "heap self = [] \<and> freq_dict \<noteq> []"
  then have h: "heap self = []" "freq_dict \<noteq> []" by simp_all
  have f1: "heap_ordered (heap (make_heap self freq_dict))"
    using h by (simp add: make_heap_eq heap_ordered_leaf_heap heap_ordered_Nil)
  have f2: "length (heap (make_heap self freq_dict)) = length freq_dict"
    using h by (simp add: make_heap_eq length_leaf_heap)
  have f3: "\<exists>root. merge_nodes (make_heap self freq_dict) = (Inr (), self\<lparr>heap := [root]\<rparr>)
           \<and> strictly_binary root
           \<and> freq root = sum_list (map snd freq_dict)
           \<and> mset (leaf_chars (Some root)) = mset (map fst freq_dict)"
    using h merge_leaf_heap [of freq_dict] by (auto simp: make_heap_eq merge_nodes_def)
  have f4: "\<forall>s :: 'a encoder. heap_ordered (heap s) \<and> 1 < length (heap s) \<longrightarrow>
           (\<exists>node1 hp1 node2 hp2.
              heappop (heap s) = Inr (node1, hp1) \<and> heappop hp1 = Inr (node2, hp2)
              \<and> (\<forall>n \<in> set (heap s). freq node1 \<le> freq n)
              \<and> (\<forall>n \<in> set hp1. freq node2 \<le> freq n)
              \<and> mset (heap s) = add_mset node1 (add_mset node2 (mset hp2))
              \<and> merge_nodes s
                  = merge_nodes
                      (s\<lparr>heap := heappush hp2
                         (Node None (freq node1 + freq node2) (Some node1) (Some node2))\<rparr>)
              \<and> mset (heappush hp2 (Node None (freq node1 + freq node2) (Some node1) (Some node2)))
                  = add_mset (Node None (freq node1 + freq node2) (Some node1) (Some node2))
                      (mset hp2)
              \<and> heap_ordered
                   (heappush hp2 (Node None (freq node1 + freq node2) (Some node1) (Some node2))))"
  proof (intro allI impI)
    fix s :: "'a encoder"
    assume "heap_ordered (heap s) \<and> 1 < length (heap s)"
    then have o: "heap_ordered (heap s)" "1 < length (heap s)" by simp_all
    from merge_nodes_loop_step [OF o] obtain node1 hp1 node2 hp2 where
      st: "heappop (heap s) = Inr (node1, hp1)" "heappop hp1 = Inr (node2, hp2)"
        "\<forall>n \<in> set (heap s). freq node1 \<le> freq n" "\<forall>n \<in> set hp1. freq node2 \<le> freq n"
        "mset (heap s) = add_mset node1 (add_mset node2 (mset hp2))"
        "merge_nodes_loop (heap s)
           = merge_nodes_loop
               (heappush hp2 (Node None (freq node1 + freq node2) (Some node1) (Some node2)))"
        "mset (heappush hp2 (Node None (freq node1 + freq node2) (Some node1) (Some node2)))
           = add_mset (Node None (freq node1 + freq node2) (Some node1) (Some node2)) (mset hp2)"
        "heap_ordered
           (heappush hp2 (Node None (freq node1 + freq node2) (Some node1) (Some node2)))"
      by blast
    have "merge_nodes s
            = merge_nodes
                (s\<lparr>heap := heappush hp2
                   (Node None (freq node1 + freq node2) (Some node1) (Some node2))\<rparr>)"
      using st(6) by (simp add: merge_nodes_def)
    with st show "\<exists>node1 hp1 node2 hp2.
              heappop (heap s) = Inr (node1, hp1) \<and> heappop hp1 = Inr (node2, hp2)
              \<and> (\<forall>n \<in> set (heap s). freq node1 \<le> freq n)
              \<and> (\<forall>n \<in> set hp1. freq node2 \<le> freq n)
              \<and> mset (heap s) = add_mset node1 (add_mset node2 (mset hp2))
              \<and> merge_nodes s
                  = merge_nodes
                      (s\<lparr>heap := heappush hp2
                         (Node None (freq node1 + freq node2) (Some node1) (Some node2))\<rparr>)
              \<and> mset (heappush hp2 (Node None (freq node1 + freq node2) (Some node1) (Some node2)))
                  = add_mset (Node None (freq node1 + freq node2) (Some node1) (Some node2))
                      (mset hp2)
              \<and> heap_ordered
                   (heappush hp2 (Node None (freq node1 + freq node2) (Some node1) (Some node2)))"
      by (intro exI [of _ node1] exI [of _ hp1] exI [of _ node2] exI [of _ hp2] conjI)
  qed
  show "heap_ordered (heap (make_heap self freq_dict))
     \<and> length (heap (make_heap self freq_dict)) = length freq_dict
     \<and> (\<exists>root. merge_nodes (make_heap self freq_dict) = (Inr (), self\<lparr>heap := [root]\<rparr>)
           \<and> strictly_binary root
           \<and> freq root = sum_list (map snd freq_dict)
           \<and> mset (leaf_chars (Some root)) = mset (map fst freq_dict))
     \<and> (\<forall>s :: 'a encoder. heap_ordered (heap s) \<and> 1 < length (heap s) \<longrightarrow>
           (\<exists>node1 hp1 node2 hp2.
              heappop (heap s) = Inr (node1, hp1) \<and> heappop hp1 = Inr (node2, hp2)
              \<and> (\<forall>n \<in> set (heap s). freq node1 \<le> freq n)
              \<and> (\<forall>n \<in> set hp1. freq node2 \<le> freq n)
              \<and> mset (heap s) = add_mset node1 (add_mset node2 (mset hp2))
              \<and> merge_nodes s
                  = merge_nodes
                      (s\<lparr>heap := heappush hp2
                         (Node None (freq node1 + freq node2) (Some node1) (Some node2))\<rparr>)
              \<and> mset (heappush hp2 (Node None (freq node1 + freq node2) (Some node1) (Some node2)))
                  = add_mset (Node None (freq node1 + freq node2) (Some node1) (Some node2))
                      (mset hp2)
              \<and> heap_ordered
                   (heappush hp2 (Node None (freq node1 + freq node2) (Some node1) (Some node2)))))"
    by (intro conjI f1 f2 f3 f4)
qed

lemma merge_witness_tree:
  "merge_nodes (make_heap (HuffmanEncoder_init :: char encoder)
       [(CHR ''A'', 2), (CHR ''B'', 3), (CHR ''C'', 4)])
     = (Inr (), HuffmanEncoder_init\<lparr>heap :=
          [Node None 9 (Some (Node (Some (CHR ''C'')) 4 None None))
             (Some (Node None 5 (Some (Node (Some (CHR ''A'')) 2 None None))
                (Some (Node (Some (CHR ''B'')) 3 None None))))]\<rparr>)"
  by (simp add: merge_nodes_def make_heap_def merge_nodes_loop.simps heappush_def heappop_def
      siftdown_def siftdown_loop.simps siftup_def siftup_loop.simps HuffmanEncoder_init_def
      node_lt_def Let_def)

theorem merge_nodes_spec_witness:
  "heap (HuffmanEncoder_init :: char encoder) = []
   \<and> [(CHR ''A'', 2), (CHR ''B'', 3), (CHR ''C'', 4 :: int)] \<noteq> []
   \<and> heap_ordered (heap (make_heap (HuffmanEncoder_init :: char encoder)
        [(CHR ''A'', 2), (CHR ''B'', 3), (CHR ''C'', 4)]))
   \<and> merge_nodes (make_heap (HuffmanEncoder_init :: char encoder)
        [(CHR ''A'', 2), (CHR ''B'', 3), (CHR ''C'', 4)])
     = (Inr (), HuffmanEncoder_init\<lparr>heap :=
          [Node None 9 (Some (Node (Some (CHR ''C'')) 4 None None))
             (Some (Node None 5 (Some (Node (Some (CHR ''A'')) 2 None None))
                (Some (Node (Some (CHR ''B'')) 3 None None))))]\<rparr>)"
proof -
  have h: "heap (HuffmanEncoder_init :: char encoder) = []
           \<and> [(CHR ''A'', 2), (CHR ''B'', 3), (CHR ''C'', 4 :: int)] \<noteq> []"
    by (simp add: HuffmanEncoder_init_def)
  have "heap_ordered (heap (make_heap (HuffmanEncoder_init :: char encoder)
        [(CHR ''A'', 2), (CHR ''B'', 3), (CHR ''C'', 4)]))"
    using merge_nodes_spec [of "HuffmanEncoder_init :: char encoder"
      "[(CHR ''A'', 2), (CHR ''B'', 3), (CHR ''C'', 4)]"] h by blast
  then show ?thesis using h merge_witness_tree by blast
qed

section \<open>The code table of a text\<close>

lemma fst_make_frequency_dict:
  "fst (make_frequency_dict self text) = fst (make_frequency_dict HuffmanEncoder_init text)"
  by (simp add: make_frequency_dict_def)

lemma freq_dict_keys: "set (map fst (fst (make_frequency_dict self text))) = set text"
proof -
  let ?fd = "fst (make_frequency_dict self text)"
  have "dom (map_of ?fd) = set text"
    using fold_count_map_of [of "text" "[]"]
    by (auto simp: make_frequency_dict_def dom_def split: if_splits)
  then show ?thesis by (simp add: dom_map_of_conv_image_fst)
qed

lemma freq_dict_nonempty: "text \<noteq> [] \<Longrightarrow> fst (make_frequency_dict self text) \<noteq> []"
  using freq_dict_keys [of self "text"] by (cases "text") auto

lemma huffman_root_merge:
  assumes "text \<noteq> []"
  shows "merge_nodes_loop (leaf_heap (fst (make_frequency_dict self text)) [])
           = (Inr (), [huffman_root text])"
    and "strictly_binary (huffman_root text)"
    and "set (leaf_chars (Some (huffman_root text))) = set text"
proof -
  let ?fd = "fst (make_frequency_dict HuffmanEncoder_init text)"
  have fd: "fst (make_frequency_dict self text) = ?fd" by (rule fst_make_frequency_dict)
  from merge_leaf_heap [OF freq_dict_nonempty [OF assms], of HuffmanEncoder_init]
  obtain root where r: "merge_nodes_loop (leaf_heap ?fd []) = (Inr (), [root])"
    "strictly_binary root" "mset (leaf_chars (Some root)) = mset (map fst ?fd)"
    by blast
  have h: "huffman_root text = root" using r(1) by (simp add: huffman_root_def)
  show "merge_nodes_loop (leaf_heap (fst (make_frequency_dict self text)) [])
           = (Inr (), [huffman_root text])"
    using r(1) h fd by simp
  show "strictly_binary (huffman_root text)" using r(2) h by simp
  have "set (leaf_chars (Some root)) = set (map fst ?fd)"
    using r(3) by (rule mset_eq_setD)
  then show "set (leaf_chars (Some (huffman_root text))) = set text"
    using h freq_dict_keys [of HuffmanEncoder_init "text"] by simp
qed

lemma heappop_single: "heappop [x] = Inr (x, [])"
  by (simp add: heappop_def)

lemma build_code_table_eq:
  assumes "heap self = []" "text \<noteq> []"
  shows "build_code_table self text
           = (Inr (),
              self\<lparr>heap := [],
                   codes := codes self ++ map_of (rev (code_list text)),
                   reverse_codes :=
                     reverse_codes self
                       ++ map_of (rev (map (\<lambda>(a, code). (code, a)) (code_list text)))\<rparr>)"
proof -
  obtain fd s1 where m: "make_frequency_dict self text = (fd, s1)"
    by (cases "make_frequency_dict self text")
  then have s1: "s1 = self" and fd: "fd = fst (make_frequency_dict self text)"
    by (simp_all add: make_frequency_dict_def)
  have mg: "merge_nodes (make_heap s1 fd) = (Inr (), self\<lparr>heap := [huffman_root text]\<rparr>)"
    using huffman_root_merge(1) [OF assms(2), of self] assms(1)
    by (simp add: merge_nodes_def make_heap_eq s1 fd)
  show ?thesis
    by (simp add: build_code_table_def m mg make_codes_def heappop_single make_codes_helper_eq
        code_list_def)
qed

lemma code_list_keys: "text \<noteq> [] \<Longrightarrow> fst ` set (code_list text) = set text"
  using huffman_root_merge(3) [of "text"] leaf_codes_fst [of "Some (huffman_root text)" "[]"]
  by (metis code_list_def list.set_map)

lemma code_list_dom: "text \<noteq> [] \<Longrightarrow> dom (map_of (rev (code_list text))) = set text"
  using code_list_keys [of "text"] by (simp add: dom_map_of_conv_image_fst)


text \<open>
  C1. For every non-empty input text, the four calls that build the code table on a new
  encoder return normally, and the code table is prefix-free: for distinct symbols with
  codes in the table, neither code is a prefix of the other.
\<close>

theorem code_table_prefix_free:
  "text \<noteq> [] \<longrightarrow>
     (\<exists>s. build_code_table HuffmanEncoder_init text = (Inr (), s) \<and> prefix_free (codes s)
           \<and> dom (codes s) = set text)"
proof
  assume ne: "text \<noteq> []"
  have h: "heap (HuffmanEncoder_init :: 'a encoder) = []" by (simp add: HuffmanEncoder_init_def)
  have c: "codes (HuffmanEncoder_init :: 'a encoder) = Map.empty"
    by (simp add: HuffmanEncoder_init_def)
  show "\<exists>s. build_code_table HuffmanEncoder_init text = (Inr (), s) \<and> prefix_free (codes s)
           \<and> dom (codes s) = set text"
    using prefix_free_leaf_codes [of "Some (huffman_root text)" "[]"] code_list_dom [OF ne]
    by (simp add: build_code_table_eq [OF h ne] c code_list_def)
qed

lemma prefix_free_witness_run:
  "fst (build_code_table (HuffmanEncoder_init :: char encoder) ''AB'') = Inr ()
   \<and> map (codes (snd (build_code_table HuffmanEncoder_init ''AB''))) ''AB''
       = [Some ''0'', Some ''1'']"
  by code_simp

theorem code_table_prefix_free_witness:
  "''AB'' \<noteq> []
   \<and> (\<exists>s. build_code_table HuffmanEncoder_init ''AB'' = (Inr (), s) \<and> prefix_free (codes s)
          \<and> dom (codes s) = set ''AB'')
   \<and> map (codes (snd (build_code_table HuffmanEncoder_init ''AB''))) ''AB''
       = [Some ''0'', Some ''1'']"
  using code_table_prefix_free [of "''AB''"] prefix_free_witness_run by blast

section \<open>What compress computes\<close>

lemma get_encoded_text_loop_cong:
  "\<forall>ch \<in> set text. cs ch = cs' ch \<Longrightarrow>
   get_encoded_text_loop cs text acc = get_encoded_text_loop cs' text acc"
  by (induction "text" arbitrary: acc) (auto split: option.splits)

lemma get_encoded_text_code_list:
  assumes "text \<noteq> []"
  shows "get_encoded_text_loop (m ++ map_of (rev (code_list text))) text [] = Inr (encoded_bits text)"
proof -
  let ?M = "map_of (rev (code_list text))"
  have d: "dom ?M = set text" using assms by (rule code_list_dom)
  have "\<forall>ch \<in> set text. (m ++ ?M) ch = ?M ch"
    using d by (auto simp: map_add_def split: option.splits)
  then have "get_encoded_text_loop (m ++ ?M) text [] = get_encoded_text_loop ?M text []"
    by (rule get_encoded_text_loop_cong)
  moreover have "\<forall>ch \<in> set text. ?M ch \<noteq> None" using d by blast
  ultimately show ?thesis by (simp add: get_encoded_text_loop_eq encoded_bits_def)
qed

lemma pad_of_range: "1 \<le> pad_of text \<and> pad_of text \<le> 8"
proof -
  have "length (encoded_bits text) mod 8 < 8" by simp
  then show ?thesis unfolding pad_of_def by linarith
qed

lemma compress_text_nonempty:
  assumes "heap self = []" "text \<noteq> []"
  shows "compress_text self text
           = (packed text,
              self\<lparr>heap := [],
                   codes := codes self ++ map_of (rev (code_list text)),
                   reverse_codes :=
                     reverse_codes self
                       ++ map_of (rev (map (\<lambda>(a, code). (code, a)) (code_list text))),
                   padding := pad_of text\<rparr>)"
proof -
  let ?s4 = "self\<lparr>heap := [],
                   codes := codes self ++ map_of (rev (code_list text)),
                   reverse_codes :=
                     reverse_codes self
                       ++ map_of (rev (map (\<lambda>(a, code). (code, a)) (code_list text)))\<rparr>"
  let ?padded = "encoded_bits text @ replicate (nat (pad_of text)) (CHR ''0'')"
  have r: "0 \<le> pad_of text \<and> pad_of text < 256" using pad_of_range [of "text"] by simp
  have b: "build_code_table self text = (Inr (), ?s4)"
    by (rule build_code_table_eq [OF assms])
  have g: "get_encoded_text ?s4 text = (Inr (encoded_bits text), ?s4)"
    by (simp add: get_encoded_text_def get_encoded_text_code_list [OF assms(2)])
  have p: "pad_encoded_text ?s4 (encoded_bits text)
             = ((?padded, pad_of text), ?s4\<lparr>padding := pad_of text\<rparr>)"
    by (simp add: pad_encoded_text_def Let_def pad_of_def)
  have c: "compress_text self text
             = (case final_bytes_loop ?padded 0 [] of
                  Inl e \<Rightarrow> (Inl e, ?s4\<lparr>padding := pad_of text\<rparr>)
                | Inr final_bytes \<Rightarrow>
                    if 0 \<le> pad_of text \<and> pad_of text < 256
                    then (Inr (nat (pad_of text) # final_bytes), ?s4\<lparr>padding := pad_of text\<rparr>)
                    else (Inl ValueError, ?s4\<lparr>padding := pad_of text\<rparr>))"
    by (simp only: compress_text_def b g p prod.case sum.case)
  show ?thesis
  proof (cases "final_bytes_loop ?padded 0 []")
    case (Inl e)
    then show ?thesis by (simp only: c packed_def sum.case)
  next
    case (Inr bs)
    then show ?thesis using r by (simp only: c packed_def sum.case simp_thms if_True)
  qed
qed

lemma empty_build:
  "heap self = [] \<Longrightarrow> build_code_table self [] = (Inl IndexError, self)"
  by (simp add: build_code_table_def make_frequency_dict_def make_heap_def merge_nodes_def
      merge_nodes_loop.simps make_codes_def heappop_def)

lemma compress_text_empty: "heap self = [] \<Longrightarrow> compress_text self [] = (Inl IndexError, self)"
  by (simp add: compress_text_def empty_build)






section \<open>The scenario AABBBCCCC\<close>

lemma scenario_freq:
  "fst (make_frequency_dict (HuffmanEncoder_init :: char encoder) ''AABBBCCCC'')
     = [(CHR ''A'', 2), (CHR ''B'', 3), (CHR ''C'', 4)]"
  by code_simp

lemma scenario_table:
  "fst (build_code_table (HuffmanEncoder_init :: char encoder) ''AABBBCCCC'') = Inr ()"
  by code_simp

lemma scenario_codes:
  "map (codes (snd (build_code_table HuffmanEncoder_init ''AABBBCCCC''))) ''ABC''
     = [Some ''10'', Some ''11'', Some ''0'']"
  by code_simp

lemma scenario_bits:
  "fst (get_encoded_text (snd (build_code_table HuffmanEncoder_init ''AABBBCCCC'')) ''AABBBCCCC'')
     = Inr ''10101111110000''"
  by code_simp

lemma scenario_padded:
  "fst (pad_encoded_text (snd (build_code_table HuffmanEncoder_init ''AABBBCCCC''))
          ''10101111110000'')
     = (''1010111111000000'', 2)"
  by code_simp

lemma scenario_bytes:
  "fst (compress_text (HuffmanEncoder_init :: char encoder) ''AABBBCCCC'') = Inr [2, 175, 192]"
  by code_simp

text \<open>
  C5. For the input AABBBCCCC the frequency table is A:2, B:3, C:4 (in this order); the
  code table is A = 10, B = 11, C = 0; the encoded bit string has 14 bits; the padding is
  2, which gives 16 bits; the bytes written are the header byte 2 and 2 packed bytes.
\<close>

theorem scenario_AABBBCCCC:
  "fst (make_frequency_dict (HuffmanEncoder_init :: char encoder) ''AABBBCCCC'')
     = [(CHR ''A'', 2), (CHR ''B'', 3), (CHR ''C'', 4)]
   \<and> fst (build_code_table (HuffmanEncoder_init :: char encoder) ''AABBBCCCC'') = Inr ()
   \<and> map (codes (snd (build_code_table HuffmanEncoder_init ''AABBBCCCC''))) ''ABC''
     = [Some ''10'', Some ''11'', Some ''0'']
   \<and> fst (get_encoded_text (snd (build_code_table HuffmanEncoder_init ''AABBBCCCC''))
          ''AABBBCCCC'')
     = Inr ''10101111110000''
   \<and> length ''10101111110000'' = 14
   \<and> fst (pad_encoded_text (snd (build_code_table HuffmanEncoder_init ''AABBBCCCC''))
          ''10101111110000'')
     = (''1010111111000000'', 2)
   \<and> length ''1010111111000000'' = 16
   \<and> fst (compress_text (HuffmanEncoder_init :: char encoder) ''AABBBCCCC'') = Inr [2, 175, 192]
   \<and> length [2, 175, 192 :: nat] = 1 + 2"
  using scenario_freq scenario_table scenario_codes scenario_bits scenario_padded scenario_bytes
  by simp

section \<open>The single-symbol alphabet\<close>

lemma single_freq:
  "fst (make_frequency_dict (HuffmanEncoder_init :: char encoder) ''AAAA'') = [(CHR ''A'', 4)]"
  by code_simp

lemma single_tree:
  "merge_nodes (make_heap (HuffmanEncoder_init :: char encoder) [(CHR ''A'', 4)])
     = (Inr (), HuffmanEncoder_init\<lparr>heap := [Node (Some (CHR ''A'')) 4 None None]\<rparr>)"
  by (simp add: merge_nodes_def make_heap_def merge_nodes_loop.simps heappush_def
      siftdown_def siftdown_loop.simps HuffmanEncoder_init_def)

lemma single_code:
  "codes (snd (build_code_table HuffmanEncoder_init ''AAAA'')) (CHR ''A'') = Some []"
  by code_simp

lemma single_bytes:
  "fst (compress_text (HuffmanEncoder_init :: char encoder) ''AAAA'') = Inr [8, 0]
   \<and> fst (compress_text (HuffmanEncoder_init :: char encoder) ''A'') = Inr [8, 0]"
  by code_simp

text \<open>
  C7, evaluated on the code. For the input AAAA the frequency table is A:4 and the tree is
  the single leaf A with no merged node; but the code assigned to A is the empty string:
  \<open>make_codes\<close> starts the walk with the empty code and the root is already a leaf. The
  encoded bit string is then empty, and the output for AAAA is the same as for A.
\<close>

theorem single_symbol_empty_code:
  "fst (make_frequency_dict (HuffmanEncoder_init :: char encoder) ''AAAA'') = [(CHR ''A'', 4)]
   \<and> merge_nodes (make_heap (HuffmanEncoder_init :: char encoder) [(CHR ''A'', 4)])
     = (Inr (), HuffmanEncoder_init\<lparr>heap := [Node (Some (CHR ''A'')) 4 None None]\<rparr>)
   \<and> codes (snd (build_code_table HuffmanEncoder_init ''AAAA'')) (CHR ''A'') = Some []
   \<and> fst (compress_text (HuffmanEncoder_init :: char encoder) ''AAAA'') = Inr [8, 0]
   \<and> fst (compress_text (HuffmanEncoder_init :: char encoder) ''A'') = Inr [8, 0]"
  using single_freq single_tree single_code single_bytes by simp

section \<open>The empty input\<close>

text \<open>
  C6 as the code has it. On an encoder whose heap is empty (a new one), the empty input
  makes \<open>merge_nodes\<close> return normally with the heap still empty; \<open>make_codes\<close> then pops
  from the empty heap and the IndexError of \<open>list.pop\<close> propagates out of \<open>compress\<close>.
  No tree is built and the encoder is unchanged.
\<close>

theorem empty_input_IndexError:
  "heap self = [] \<Longrightarrow>
     merge_nodes (make_heap self (fst (make_frequency_dict self []))) = (Inr (), self)
     \<and> make_codes self = (Inl IndexError, self)
     \<and> compress_text self [] = (Inl IndexError, self)
     \<and> (files input_file = Some [] \<longrightarrow>
          compress self files input_file = (Inl IndexError, self))"
  by (simp add: empty_build compress_text_def compress_def make_frequency_dict_def
      make_heap_def merge_nodes_def merge_nodes_loop.simps make_codes_def heappop_def)

theorem empty_input_IndexError_witness:
  "heap (HuffmanEncoder_init :: char encoder) = []
   \<and> compress_text (HuffmanEncoder_init :: char encoder) [] = (Inl IndexError, HuffmanEncoder_init)
   \<and> compress (HuffmanEncoder_init :: char encoder) [''in.txt'' \<mapsto> []] ''in.txt''
       = (Inl IndexError, HuffmanEncoder_init)"
  using empty_input_IndexError
    [of "HuffmanEncoder_init :: char encoder" "[''in.txt'' \<mapsto> []]" "''in.txt''"]
  by (simp add: HuffmanEncoder_init_def)

theorem empty_input_counterexample:
  "fst (compress_text (HuffmanEncoder_init :: char encoder) []) \<noteq> Inl EmptyInput
   \<and> fst (merge_nodes (make_heap (HuffmanEncoder_init :: char encoder)
            (fst (make_frequency_dict HuffmanEncoder_init [])))) = Inr ()
   \<and> fst (make_codes (HuffmanEncoder_init :: char encoder)) = Inl IndexError"
  by (simp add: empty_build compress_text_def make_frequency_dict_def
      make_heap_def merge_nodes_def merge_nodes_loop.simps make_codes_def heappop_def
      HuffmanEncoder_init_def)

section \<open>Repeated runs\<close>


lemma compress_text_state:
  assumes "heap self = []"
  shows "heap (snd (compress_text self text)) = []"
    and "codes (snd (compress_text self text))
           = codes self ++ (if text = [] then Map.empty else map_of (rev (code_list text)))"
    and "reverse_codes (snd (compress_text self text))
           = reverse_codes self
               ++ (if text = [] then Map.empty
                   else map_of (rev (map (\<lambda>(a, code). (code, a)) (code_list text))))"
    and "padding (snd (compress_text self text)) = (if text = [] then padding self else pad_of text)"
    and "fst (compress_text self text) = (if text = [] then Inl IndexError else packed text)"
  using assms by (cases "text = []"; simp add: compress_text_empty compress_text_nonempty)+


lemma compress_eq:
  "compress self files input_file =
     (case files input_file of
        None \<Rightarrow> (Inl FileNotFoundError, self)
      | Some text \<Rightarrow>
          (map_sum id (\<lambda>written. (input_file @ ''.bin'', written)) (fst (compress_text self text)),
           snd (compress_text self text)))"
  by (auto simp: compress_def split: option.splits prod.splits sum.splits)

section \<open>Reusing an encoder\<close>

lemma init_fields:
  "heap (HuffmanEncoder_init :: 'a encoder) = []"
  "codes (HuffmanEncoder_init :: 'a encoder) = Map.empty"
  "reverse_codes (HuffmanEncoder_init :: 'a encoder) = Map.empty"
  by (simp_all add: HuffmanEncoder_init_def)

lemma compress_state:
  assumes h: "heap self = []"
  shows "heap (snd (compress self files input_file)) = []"
    and "fst (compress self files input_file) = fst (compress HuffmanEncoder_init files input_file)"
    and "codes (snd (compress self files input_file))
           = codes self ++ codes (snd (compress HuffmanEncoder_init files input_file))"
    and "reverse_codes (snd (compress self files input_file))
           = reverse_codes self
               ++ reverse_codes (snd (compress HuffmanEncoder_init files input_file))"
    and "padding (snd (compress self files input_file))
           = (if files input_file = None \<or> files input_file = Some [] then padding self
              else padding (snd (compress HuffmanEncoder_init files input_file)))"
proof -
  note i = init_fields(1) [where 'a = 'a]
  have "heap (snd (compress self files input_file)) = []
     \<and> fst (compress self files input_file) = fst (compress HuffmanEncoder_init files input_file)
     \<and> codes (snd (compress self files input_file))
         = codes self ++ codes (snd (compress HuffmanEncoder_init files input_file))
     \<and> reverse_codes (snd (compress self files input_file))
         = reverse_codes self ++ reverse_codes (snd (compress HuffmanEncoder_init files input_file))
     \<and> padding (snd (compress self files input_file))
         = (if files input_file = None \<or> files input_file = Some [] then padding self
            else padding (snd (compress HuffmanEncoder_init files input_file)))"
  proof (cases "files input_file")
    case None
    then show ?thesis using h by (simp add: compress_eq init_fields)
  next
    case (Some t)
    show ?thesis
      by (simp add: compress_eq Some compress_text_state [OF h] compress_text_state [OF i]
          init_fields)
  qed
  then show "heap (snd (compress self files input_file)) = []"
    and "fst (compress self files input_file) = fst (compress HuffmanEncoder_init files input_file)"
    and "codes (snd (compress self files input_file))
           = codes self ++ codes (snd (compress HuffmanEncoder_init files input_file))"
    and "reverse_codes (snd (compress self files input_file))
           = reverse_codes self
               ++ reverse_codes (snd (compress HuffmanEncoder_init files input_file))"
    and "padding (snd (compress self files input_file))
           = (if files input_file = None \<or> files input_file = Some [] then padding self
              else padding (snd (compress HuffmanEncoder_init files input_file)))"
    by simp_all
qed

text \<open>
  C9 as the code has it. \<open>compress\<close> leaves the heap empty, but the code table, the
  reverse table and the padding stay in the encoder. On an encoder with an empty heap (a
  new one, or one left by any earlier \<open>compress\<close>), \<open>compress\<close> returns exactly what a new
  encoder returns for the same file, and leaves the heap empty; its tables afterwards are
  the earlier tables overridden by the tables a new encoder would end with, so entries of
  earlier inputs stay; the padding is the new one when the input is not empty.
\<close>

theorem compress_reuse:
  "heap self = [] \<longrightarrow>
     heap (snd (compress self files input_file)) = []
     \<and> fst (compress self files input_file) = fst (compress HuffmanEncoder_init files input_file)
     \<and> codes (snd (compress self files input_file))
         = codes self ++ codes (snd (compress HuffmanEncoder_init files input_file))
     \<and> reverse_codes (snd (compress self files input_file))
         = reverse_codes self ++ reverse_codes (snd (compress HuffmanEncoder_init files input_file))
     \<and> padding (snd (compress self files input_file))
         = (if files input_file = None \<or> files input_file = Some [] then padding self
            else padding (snd (compress HuffmanEncoder_init files input_file)))"
  using compress_state [of self files input_file] by simp

lemma reuse_run_first:
  "map (codes (snd (compress HuffmanEncoder_init
       [''a.txt'' \<mapsto> ''AB'', ''b.txt'' \<mapsto> ''BC''] ''a.txt''))) ''AB''
     = [Some ''0'', Some ''1'']"
  by code_simp

lemma reuse_run_fresh:
  "map (codes (snd (compress HuffmanEncoder_init
       [''a.txt'' \<mapsto> ''AB'', ''b.txt'' \<mapsto> ''BC''] ''b.txt''))) ''ABC''
     = [None, Some ''0'', Some ''1'']"
  by code_simp

lemma reuse_run_second:
  "map (codes (snd (compress (snd (compress HuffmanEncoder_init
       [''a.txt'' \<mapsto> ''AB'', ''b.txt'' \<mapsto> ''BC''] ''a.txt''))
       [''a.txt'' \<mapsto> ''AB'', ''b.txt'' \<mapsto> ''BC''] ''b.txt''))) ''ABC''
     = [Some ''0'', Some ''0'', Some ''1'']"
proof -
  let ?F = "[''a.txt'' \<mapsto> ''AB'', ''b.txt'' \<mapsto> ''BC'']"
  have h1: "heap (snd (compress (HuffmanEncoder_init :: char encoder) ?F ''a.txt'')) = []"
    by (rule compress_state(1)) (rule init_fields)
  show ?thesis
    using reuse_run_first reuse_run_fresh
    by (simp add: compress_state(3) [OF h1] map_add_def)
qed

theorem compress_reuse_witness:
  "heap (HuffmanEncoder_init :: char encoder) = []
   \<and> heap (snd (compress (HuffmanEncoder_init :: char encoder)
        [''a.txt'' \<mapsto> ''AB'', ''b.txt'' \<mapsto> ''BC''] ''a.txt'')) = []
   \<and> fst (compress (snd (compress (HuffmanEncoder_init :: char encoder)
        [''a.txt'' \<mapsto> ''AB'', ''b.txt'' \<mapsto> ''BC''] ''a.txt''))
        [''a.txt'' \<mapsto> ''AB'', ''b.txt'' \<mapsto> ''BC''] ''b.txt'')
     = fst (compress HuffmanEncoder_init [''a.txt'' \<mapsto> ''AB'', ''b.txt'' \<mapsto> ''BC''] ''b.txt'')"
proof -
  let ?F = "[''a.txt'' \<mapsto> ''AB'', ''b.txt'' \<mapsto> ''BC'']"
  have h: "heap (HuffmanEncoder_init :: char encoder) = []" by (rule init_fields)
  have h1: "heap (snd (compress (HuffmanEncoder_init :: char encoder) ?F ''a.txt'')) = []"
    using compress_reuse [of "HuffmanEncoder_init :: char encoder" ?F "''a.txt''"] h by blast
  show ?thesis
    using compress_reuse
      [of "snd (compress (HuffmanEncoder_init :: char encoder) ?F ''a.txt'')" ?F "''b.txt''"] h h1
    by blast
qed

theorem compress_reuse_counterexample:
  "codes (snd (compress (snd (compress HuffmanEncoder_init
       [''a.txt'' \<mapsto> ''AB'', ''b.txt'' \<mapsto> ''BC''] ''a.txt''))
       [''a.txt'' \<mapsto> ''AB'', ''b.txt'' \<mapsto> ''BC''] ''b.txt'')) (CHR ''A'') = Some ''0''
   \<and> codes (snd (compress HuffmanEncoder_init
       [''a.txt'' \<mapsto> ''AB'', ''b.txt'' \<mapsto> ''BC''] ''b.txt'')) (CHR ''A'') = None
   \<and> compress (snd (compress HuffmanEncoder_init
       [''a.txt'' \<mapsto> ''AB'', ''b.txt'' \<mapsto> ''BC''] ''a.txt''))
       [''a.txt'' \<mapsto> ''AB'', ''b.txt'' \<mapsto> ''BC''] ''b.txt''
     \<noteq> compress HuffmanEncoder_init [''a.txt'' \<mapsto> ''AB'', ''b.txt'' \<mapsto> ''BC''] ''b.txt''
   \<and> \<not> prefix_free (codes (snd (compress (snd (compress HuffmanEncoder_init
       [''a.txt'' \<mapsto> ''AB'', ''b.txt'' \<mapsto> ''BC''] ''a.txt''))
       [''a.txt'' \<mapsto> ''AB'', ''b.txt'' \<mapsto> ''BC''] ''b.txt'')))
   \<and> fst (get_encoded_text (snd (compress (snd (compress HuffmanEncoder_init
       [''a.txt'' \<mapsto> ''AB'', ''b.txt'' \<mapsto> ''BC''] ''a.txt''))
       [''a.txt'' \<mapsto> ''AB'', ''b.txt'' \<mapsto> ''BC''] ''b.txt'')) ''A'') = Inr ''0''
   \<and> fst (get_encoded_text (snd (compress HuffmanEncoder_init
       [''a.txt'' \<mapsto> ''AB'', ''b.txt'' \<mapsto> ''BC''] ''b.txt'')) ''A'') = Inl KeyError"
proof -
  let ?F = "[''a.txt'' \<mapsto> ''AB'', ''b.txt'' \<mapsto> ''BC'']"
  let ?s2 = "snd (compress (snd (compress HuffmanEncoder_init ?F ''a.txt'')) ?F ''b.txt'')"
  let ?fresh = "snd (compress HuffmanEncoder_init ?F ''b.txt'')"
  have s2: "codes ?s2 (CHR ''A'') = Some ''0''" "codes ?s2 (CHR ''B'') = Some ''0''"
    using reuse_run_second by simp_all
  have fr: "codes ?fresh (CHR ''A'') = None" using reuse_run_fresh by simp
  have ne: "compress (snd (compress HuffmanEncoder_init ?F ''a.txt'')) ?F ''b.txt''
              \<noteq> compress HuffmanEncoder_init ?F ''b.txt''"
  proof
    assume "compress (snd (compress HuffmanEncoder_init ?F ''a.txt'')) ?F ''b.txt''
              = compress HuffmanEncoder_init ?F ''b.txt''"
    then have "codes ?s2 (CHR ''A'') = codes ?fresh (CHR ''A'')" by simp
    then show False using s2 fr by simp
  qed
  have npf: "\<not> prefix_free (codes ?s2)"
  proof
    assume "prefix_free (codes ?s2)"
    then have "CHR ''A'' \<noteq> CHR ''B'' \<and> codes ?s2 (CHR ''A'') = Some ''0''
                 \<and> codes ?s2 (CHR ''B'') = Some ''0'' \<longrightarrow>
               \<not> prefix ''0'' ''0'' \<and> \<not> prefix ''0'' ''0''"
      unfolding prefix_free_def by (elim allE)
    then show False using s2 by simp
  qed
  have g: "fst (get_encoded_text ?s2 ''A'') = Inr ''0''"
    "fst (get_encoded_text ?fresh ''A'') = Inl KeyError"
    using s2 fr by (simp_all add: get_encoded_text_def)
  show ?thesis
    using s2(1) fr ne npf g by (intro conjI)
qed

section \<open>Two runs on the same input\<close>












end
